theory Spec2Isabelle
  imports Main "HOL-Library.Sublist"
begin

section \<open>Strings\<close>

text \<open>
  JavaScript strings are modelled as \<^typ>\<open>string\<close>: a character is a UTF-16 code unit
  below 256.  The string methods the wiki services use are given their source names.
\<close>

definition startsWith :: "string \<Rightarrow> string \<Rightarrow> bool" where
  "startsWith s t = prefix t s"

definition endsWith :: "string \<Rightarrow> string \<Rightarrow> bool" where
  "endsWith s t = suffix t s"

definition str_includes :: "string \<Rightarrow> string \<Rightarrow> bool" where
  "str_includes s t = sublist t s"

definition slash :: char where
  "slash = CHR ''/''"

section \<open>ContentService (editor.js)\<close>

subsection \<open>normalizePath\<close>

text \<open>
  \<^verbatim>\<open>path.replace(/^\/+|\/+$/g, '')\<close>: the first alternative removes the run of slashes
  at the start of the input, the second the run of slashes that reaches its end; a run in
  the middle is matched by neither.
\<close>

definition strip_slashes :: "string \<Rightarrow> string" where
  "strip_slashes p = rev (dropWhile (\<lambda>c. c = slash) (rev (dropWhile (\<lambda>c. c = slash) p)))"

text \<open>
  \<^verbatim>\<open>if (path && !path.endsWith('/') && !path.includes('.')) path = `${path}.md`\<close>
\<close>

definition normalizePath :: "string \<Rightarrow> string" where
  "normalizePath p =
     (let path = strip_slashes p in
      if path \<noteq> [] \<and> \<not> endsWith path ''/'' \<and> \<not> str_includes path ''.''
      then path @ ''.md'' else path)"

subsection \<open>Environment: configuration, credential, remote store\<close>

text \<open>
  JSON values, as \<^verbatim>\<open>response.json()\<close> yields them and \<^verbatim>\<open>JSON.stringify\<close> takes them.
  An object is the list of its fields in order, every key once.
\<close>

datatype json =
    JNull
  | JBool bool
  | JNum int
  | JStr string
  | JArr "json list"
  | JObj "(string \<times> json) list"

text \<open>JavaScript truthiness of a JSON value, and of a string that may be \<^verbatim>\<open>null\<close>.\<close>

fun truthy :: "json \<Rightarrow> bool" where
  "truthy JNull = False"
| "truthy (JBool b) = b"
| "truthy (JNum n) = (n \<noteq> 0)"
| "truthy (JStr s) = (s \<noteq> [])"
| "truthy (JArr xs) = True"
| "truthy (JObj fs) = True"

fun truthy_str :: "string option \<Rightarrow> bool" where
  "truthy_str None = False"
| "truthy_str (Some s) = (s \<noteq> [])"

datatype http_method = GET | PUT

record request =
  req_method :: http_method
  req_url :: string
  req_headers :: "(string \<times> string) list"
  req_body :: "json option"

text \<open>
  What \<^verbatim>\<open>await fetch(...)\<close> gives: the promise rejects (\<open>NetworkError\<close>), or a response
  with a status, its body as text (\<^verbatim>\<open>response.text()\<close>) and its body parsed as JSON
  (\<^verbatim>\<open>response.json()\<close>, \<open>None\<close> when the body is not JSON and the promise rejects).
\<close>

datatype http_response =
    NetworkError
  | Response (resp_status: nat) (resp_text: string) (resp_json: "json option")

definition ok :: "nat \<Rightarrow> bool" where
  "ok st = (200 \<le> st \<and> st \<le> 299)"

record config =
  contentRepo :: string
  defaultBranch :: string

text \<open>
  The ambient collaborators of the service: \<^verbatim>\<open>window.wikiApp.config\<close> (absent: \<open>None\<close>),
  the token of \<^verbatim>\<open>window.wikiApp.auth.getToken()\<close> (\<open>None\<close>: \<^verbatim>\<open>null\<close>, or no auth
  service), the remote store answering each request, and the browser's \<^verbatim>\<open>btoa\<close>, which
  raises (\<open>None\<close>) on a string it cannot encode.
\<close>

record env =
  app_config :: "config option"
  auth_token :: "string option"
  remote :: "request \<Rightarrow> http_response"
  btoa :: "string \<Rightarrow> string option"

datatype error =
    NotConfigured
  | NotAuthenticated
  | ApiError nat
  | FetchFailed
  | JsonError
  | EncodingError
  | ServiceUnavailable
  | TypeError

definition getConfig :: "env \<Rightarrow> config" where
  "getConfig e =
     (case app_config e of
        Some c \<Rightarrow> c
      | None \<Rightarrow> \<lparr>contentRepo = [], defaultBranch = ''main''\<rparr>)"

definition getAuthToken :: "env \<Rightarrow> string option" where
  "getAuthToken e = auth_token e"

definition getApiUrl :: "env \<Rightarrow> string \<Rightarrow> error + string" where
  "getApiUrl e path =
     (let config = getConfig e in
      if contentRepo config = [] then Inl NotConfigured
      else Inr (''https://api.github.com/repos/'' @ contentRepo config @ ''/contents/'' @ path
                @ ''?ref='' @ defaultBranch config))"

subsection \<open>The cache\<close>

text \<open>
  \<^verbatim>\<open>this.cache = new Map()\<close>, from a normalized path to \<^verbatim>\<open>{content, timestamp}\<close>;
  \<^verbatim>\<open>this.cacheTTL = 5 * 60 * 1000\<close>.  Times are the milliseconds of \<^verbatim>\<open>Date.now()\<close>.
\<close>

record cache_entry =
  content :: string
  timestamp :: int

type_synonym cache = "string \<rightharpoonup> cache_entry"

definition cacheTTL :: int where
  "cacheTTL = 5 * 60 * 1000"

definition addToCache :: "cache \<Rightarrow> int \<Rightarrow> string \<Rightarrow> string \<Rightarrow> cache" where
  "addToCache c now path cont = c(path \<mapsto> \<lparr>content = cont, timestamp = now\<rparr>)"

text \<open>
  \<^verbatim>\<open>getFromCache\<close>: no entry gives \<^verbatim>\<open>null\<close>; an entry with
  \<^verbatim>\<open>Date.now() - cached.timestamp > this.cacheTTL\<close> is deleted and gives \<^verbatim>\<open>null\<close>;
  otherwise the entry's content is returned.  The result is paired with the cache afterwards.
\<close>

definition getFromCache :: "cache \<Rightarrow> int \<Rightarrow> string \<Rightarrow> string option \<times> cache" where
  "getFromCache c now path =
     (case c path of
        None \<Rightarrow> (None, c)
      | Some cached \<Rightarrow>
          if now - timestamp cached > cacheTTL then (None, c(path := None))
          else (Some (content cached), c))"

definition clearCache :: "cache \<Rightarrow> cache" where
  "clearCache c = Map.empty"

subsection \<open>getFile\<close>

text \<open>
  \<open>getFile e c now later p\<close>: the call made at time \<open>now\<close> (read by \<^verbatim>\<open>getFromCache\<close>),
  whose response, if a request is made, has arrived at time \<open>later\<close> (read by
  \<^verbatim>\<open>addToCache\<close>).  The result is what the promise settles to (\<open>Inl\<close>: it rejects;
  \<open>Inr None\<close>: \<^verbatim>\<open>null\<close>), the requests issued, and the cache afterwards.  The test
  \<^verbatim>\<open>if (cachedContent)\<close> is JavaScript truthiness: \<^verbatim>\<open>null\<close> and the empty string fail it.
\<close>

definition getFile_request :: "env \<Rightarrow> string \<Rightarrow> request" where
  "getFile_request e url =
     \<lparr>req_method = GET, req_url = url,
      req_headers =
        [(''Accept'', ''application/vnd.github.v3.raw'')] @
        (case getAuthToken e of
           Some token \<Rightarrow> if token \<noteq> [] then [(''Authorization'', ''token '' @ token)] else []
         | None \<Rightarrow> []),
      req_body = None\<rparr>"

definition getFile ::
  "env \<Rightarrow> cache \<Rightarrow> int \<Rightarrow> int \<Rightarrow> string \<Rightarrow> (error + string option) \<times> request list \<times> cache" where
  "getFile e c now later p =
     (let path = normalizePath p;
          (cachedContent, c1) = getFromCache c now path
      in if truthy_str cachedContent then (Inr cachedContent, [], c1)
         else
           (case getApiUrl e path of
              Inl err \<Rightarrow> (Inl err, [], c1)
            | Inr url \<Rightarrow>
                (let req = getFile_request e url in
                 case remote e req of
                   NetworkError \<Rightarrow> (Inl FetchFailed, [req], c1)
                 | Response st body js \<Rightarrow>
                     if \<not> ok st then
                       (if st = 404 then (Inr None, [req], c1)
                        else (Inl (ApiError st), [req], c1))
                     else (Inr (Some body), [req], addToCache c1 later path body))))"

subsection \<open>saveFile\<close>

text \<open>
  \<^verbatim>\<open>fileData.sha\<close> of the read that precedes the write.  The read is wrapped in its own
  \<^verbatim>\<open>try\<close>: a rejected fetch, a body that is not JSON, and \<^verbatim>\<open>null.sha\<close> all leave
  \<^verbatim>\<open>sha = null\<close>; a response that is not ok is not read.  A JSON value without the field
  gives \<^verbatim>\<open>undefined\<close>, which like \<^verbatim>\<open>null\<close> is \<open>None\<close> here.
\<close>

fun json_field :: "string \<Rightarrow> json \<Rightarrow> json option" where
  "json_field k (JObj fs) = map_of fs k"
| "json_field k v = None"

definition read_sha :: "http_response \<Rightarrow> json option" where
  "read_sha r =
     (case r of
        NetworkError \<Rightarrow> None
      | Response st body js \<Rightarrow>
          if ok st then (case js of None \<Rightarrow> None | Some fileData \<Rightarrow> json_field ''sha'' fileData)
          else None)"

definition read_request :: "string \<Rightarrow> string \<Rightarrow> request" where
  "read_request url token =
     \<lparr>req_method = GET, req_url = url,
      req_headers = [(''Authorization'', ''token '' @ token)], req_body = None\<rparr>"

text \<open>
  The request body: \<^verbatim>\<open>{message, content: btoa(content), branch}\<close>, and
  \<^verbatim>\<open>if (sha) requestBody.sha = sha\<close>.
\<close>

definition requestBody :: "string \<Rightarrow> string \<Rightarrow> string \<Rightarrow> json option \<Rightarrow> json" where
  "requestBody message encoded branch sha =
     JObj ([(''message'', JStr message), (''content'', JStr encoded), (''branch'', JStr branch)] @
           (case sha of
              Some v \<Rightarrow> if truthy v then [(''sha'', v)] else []
            | None \<Rightarrow> []))"

definition write_request :: "string \<Rightarrow> string \<Rightarrow> json \<Rightarrow> request" where
  "write_request url token body =
     \<lparr>req_method = PUT, req_url = url,
      req_headers = [(''Authorization'', ''token '' @ token), (''Content-Type'', ''application/json'')],
      req_body = Some body\<rparr>"

text \<open>
  The error raised for a write that the store rejects,
  \<^verbatim>\<open>new Error(`GitHub API error: ${response.status} - ${errorData.message}`)\<close>.
  Reading \<^verbatim>\<open>.message\<close> of \<^verbatim>\<open>null\<close> raises a \<^verbatim>\<open>TypeError\<close> instead, and so does
  the conversion of the message to a string when the message is an object with a property
  \<^verbatim>\<open>toString\<close> of its own (no JSON value is callable, and the inherited
  \<^verbatim>\<open>valueOf\<close> returns the object), or an array with such an element
  (\<^verbatim>\<open>Array.prototype.join\<close> converts every element but \<^verbatim>\<open>null\<close>).
\<close>

fun to_string_raises :: "json \<Rightarrow> bool" where
  "to_string_raises (JObj fs) = (''toString'' \<in> set (map fst fs))"
| "to_string_raises (JArr xs) = list_ex to_string_raises xs"
| "to_string_raises v = False"

definition write_error :: "nat \<Rightarrow> json \<Rightarrow> error" where
  "write_error st errorData =
     (if errorData = JNull then TypeError
      else
        (case json_field ''message'' errorData of
           None \<Rightarrow> ApiError st
         | Some m \<Rightarrow> if to_string_raises m then TypeError else ApiError st))"

text \<open>
  \<open>saveFile e c later p cont message\<close>; \<open>later\<close> is the time at which the write's response
  has been read (\<^verbatim>\<open>addToCache\<close>).  The result is what the promise settles to, the
  requests issued in order, and the cache afterwards.
\<close>

definition saveFile ::
  "env \<Rightarrow> cache \<Rightarrow> int \<Rightarrow> string \<Rightarrow> string \<Rightarrow> string \<Rightarrow> (error + json) \<times> request list \<times> cache" where
  "saveFile e c later p cont message =
     (let path = normalizePath p in
      case getAuthToken e of
        None \<Rightarrow> (Inl NotAuthenticated, [], c)
      | Some token \<Rightarrow>
          if token = [] then (Inl NotAuthenticated, [], c)
          else
            (let config = getConfig e in
             case getApiUrl e path of
               Inl err \<Rightarrow> (Inl err, [], c)
             | Inr url \<Rightarrow>
                 (let rd = read_request url token;
                      sha = read_sha (remote e rd)
                  in case btoa e cont of
                       None \<Rightarrow> (Inl EncodingError, [rd], c)
                     | Some encoded \<Rightarrow>
                         (let wr = write_request url token
                                     (requestBody message encoded (defaultBranch config) sha)
                          in case remote e wr of
                               NetworkError \<Rightarrow> (Inl FetchFailed, [rd, wr], c)
                             | Response st body js \<Rightarrow>
                                 if \<not> ok st then
                                   (case js of
                                      None \<Rightarrow> (Inl JsonError, [rd, wr], c)
                                    | Some errorData \<Rightarrow> (Inl (write_error st errorData), [rd, wr], c))
                                 else
                                   (case js of
                                      None \<Rightarrow> (Inl JsonError, [rd, wr], c)
                                    | Some responseData \<Rightarrow>
                                        (Inr responseData, [rd, wr],
                                         addToCache c later path cont))))))"

subsection \<open>A concrete store\<close>

text \<open>The bodies of some answers of the store, as text and as JSON.\<close>

definition quoted :: "string \<Rightarrow> string" where
  "quoted s = [CHR 0x22] @ s @ [CHR 0x22]"

definition file_meta_text :: string where
  "file_meta_text =
     ''{'' @ quoted ''type'' @ '':'' @ quoted ''file'' @ '','' @ quoted ''sha'' @ '':'' @ quoted ''3f2a'' @ ''}''"

definition file_meta :: json where
  "file_meta = JObj [(''type'', JStr ''file''), (''sha'', JStr ''3f2a'')]"

definition commit_text :: string where
  "commit_text = ''{'' @ quoted ''commit'' @ '':{}}''"

definition not_found_text :: string where
  "not_found_text = ''{'' @ quoted ''message'' @ '':'' @ quoted ''Not Found'' @ ''}''"

definition not_found :: json where
  "not_found = JObj [(''message'', JStr ''Not Found'')]"

definition commit_done :: json where
  "commit_done = JObj [(''commit'', JObj [])]"

text \<open>\<^verbatim>\<open>btoa\<close> on the one content that the examples save.\<close>

definition btoa_text :: "string \<Rightarrow> string option" where
  "btoa_text s = (if s = ''text'' then Some ''dGV4dA=='' else None)"

text \<open>A configured, unauthenticated service whose store answers every request with 200 and an
  empty body.\<close>

definition empty_file_env :: env where
  "empty_file_env =
     \<lparr>app_config = Some \<lparr>contentRepo = ''o/r'', defaultBranch = ''main''\<rparr>,
      auth_token = None,
      remote = (\<lambda>r. Response 200 [] None),
      btoa = btoa_text\<rparr>"

text \<open>A cache holding two entries fetched at time 0.\<close>

definition aged_cache :: cache where
  "aged_cache =
     Map.empty(''a.md'' \<mapsto> \<lparr>content = ''x'', timestamp = 0\<rparr>,
               ''b.md'' \<mapsto> \<lparr>content = ''y'', timestamp = 0\<rparr>)"

text \<open>A configured, unauthenticated service whose store answers every request with 404.\<close>

definition missing_env :: env where
  "missing_env =
     \<lparr>app_config = Some \<lparr>contentRepo = ''o/r'', defaultBranch = ''main''\<rparr>,
      auth_token = None,
      remote = (\<lambda>r. Response 404 not_found_text (Some not_found)),
      btoa = btoa_text\<rparr>"

text \<open>
  An authenticated service.  In \<open>existing_env\<close> the store holds the file: it answers
  the read with the file's metadata and accepts the write.  In \<open>creating_env\<close> it does not:
  the read is answered 404, the write 201.
\<close>

definition existing_env :: env where
  "existing_env =
     \<lparr>app_config = Some \<lparr>contentRepo = ''o/r'', defaultBranch = ''main''\<rparr>,
      auth_token = Some ''t0k'',
      remote = (\<lambda>r. if req_method r = GET then Response 200 file_meta_text (Some file_meta)
                      else Response 200 commit_text (Some commit_done)),
      btoa = btoa_text\<rparr>"

definition creating_env :: env where
  "creating_env =
     \<lparr>app_config = Some \<lparr>contentRepo = ''o/r'', defaultBranch = ''main''\<rparr>,
      auth_token = Some ''t0k'',
      remote = (\<lambda>r. if req_method r = GET
                      then Response 404 not_found_text (Some not_found)
                      else Response 201 commit_text (Some commit_done)),
      btoa = btoa_text\<rparr>"

text \<open>
  The two requests of a \<^verbatim>\<open>saveFile\<close> of the path \<^verbatim>\<open>a\<close> with the content \<^verbatim>\<open>text\<close>
  there: the read, and the write whose body ends with the given fields.
\<close>

definition a_url :: string where
  "a_url = ''https://api.github.com/repos/o/r/contents/a.md?ref=main''"

definition a_read :: request where
  "a_read =
     \<lparr>req_method = GET, req_url = a_url,
      req_headers = [(''Authorization'', ''token t0k'')], req_body = None\<rparr>"

definition a_write :: "(string \<times> json) list \<Rightarrow> request" where
  "a_write sha_field =
     \<lparr>req_method = PUT, req_url = a_url,
      req_headers = [(''Authorization'', ''token t0k''), (''Content-Type'', ''application/json'')],
      req_body =
        Some (JObj ([(''message'', JStr ''Update file''), (''content'', JStr ''dGV4dA==''),
                     (''branch'', JStr ''main'')] @ sha_field))\<rparr>"

section \<open>Text operations\<close>

text \<open>
  A character is a UTF-16 code unit below 256.  \<^verbatim>\<open>\s\<close> and \<^verbatim>\<open>trim\<close> take the code
  units 9 to 13, 32 and 160 as white space; \<^verbatim>\<open>\w\<close> is \<^verbatim>\<open>[A-Za-z0-9_]\<close>;
  \<^verbatim>\<open>toLowerCase\<close> moves \<^verbatim>\<open>A-Z\<close> and the capital letters 192 to 222 (without 215) up by 32.
\<close>

definition nl :: char where
  "nl = CHR 0x0A"

definition cr :: char where
  "cr = CHR 0x0D"

definition is_space :: "char \<Rightarrow> bool" where
  "is_space c = (let n = (of_char c :: nat) in (9 \<le> n \<and> n \<le> 13) \<or> n = 32 \<or> n = 160)"

definition is_word :: "char \<Rightarrow> bool" where
  "is_word c =
     (let n = (of_char c :: nat)
      in (48 \<le> n \<and> n \<le> 57) \<or> (65 \<le> n \<and> n \<le> 90) \<or> n = 95 \<or> (97 \<le> n \<and> n \<le> 122))"

definition lower_char :: "char \<Rightarrow> char" where
  "lower_char c =
     (let n = (of_char c :: nat)
      in if (65 \<le> n \<and> n \<le> 90) \<or> (192 \<le> n \<and> n \<le> 222 \<and> n \<noteq> 215) then char_of (n + 32) else c)"

text \<open>\<^verbatim>\<open>c.toUpperCase()\<close> for a word character \<open>c\<close>.\<close>

definition upper_char :: "char \<Rightarrow> char" where
  "upper_char c =
     (let n = (of_char c :: nat) in if 97 \<le> n \<and> n \<le> 122 then char_of (n - 32) else c)"

definition toLowerCase :: "string \<Rightarrow> string" where
  "toLowerCase s = map lower_char s"

definition trim :: "string \<Rightarrow> string" where
  "trim s = rev (dropWhile is_space (rev (dropWhile is_space s)))"

text \<open>
  Splitting at every character that satisfies \<open>P\<close>; the result is never empty.
  \<^verbatim>\<open>s.split(d)\<close> for a one-character separator is \<open>split_char d s\<close>:
  \<^verbatim>\<open>''.split(d)\<close> is \<^verbatim>\<open>['']\<close>.
\<close>

fun split_on :: "(char \<Rightarrow> bool) \<Rightarrow> string \<Rightarrow> string list" where
  "split_on P [] = [[]]"
| "split_on P (c # cs) =
     (if P c then [] # split_on P cs
      else (case split_on P cs of
              [] \<Rightarrow> [[c]]
            | w # ws \<Rightarrow> (c # w) # ws))"

definition split_char :: "char \<Rightarrow> string \<Rightarrow> string list" where
  "split_char d s = split_on (\<lambda>c. c = d) s"

text \<open>
  \<^verbatim>\<open>s.split(/\s+/)\<close>: the separators are the maximal runs of white space.
\<close>

function split_ws :: "string \<Rightarrow> string list" where
  "split_ws [] = [[]]"
| "split_ws (c # cs) =
     (if is_space c then [] # split_ws (dropWhile is_space cs)
      else (case split_ws cs of
              [] \<Rightarrow> [[c]]
            | w # ws \<Rightarrow> (c # w) # ws))"
  by pat_completeness auto
termination
  by (relation "measure length") (auto simp: length_dropWhile_le less_Suc_eq_le)

text \<open>
  The first occurrence of \<open>sep\<close> in a text: what precedes it and what follows it.
\<close>

fun find_sub :: "string \<Rightarrow> string \<Rightarrow> (string \<times> string) option" where
  "find_sub sep [] = (if sep = [] then Some ([], []) else None)"
| "find_sub sep (c # cs) =
     (if prefix sep (c # cs) then Some ([], drop (length sep) (c # cs))
      else (case find_sub sep cs of
              None \<Rightarrow> None
            | Some (a, b) \<Rightarrow> Some (c # a, b)))"

text \<open>
  \<^verbatim>\<open>(s.match(new RegExp(term, 'g')) || []).length\<close> for a term of word characters: the
  matches are found from left to right and do not overlap.  (For the empty pattern the
  count is one more than the length, as in JavaScript.)
\<close>

fun count_matches :: "string \<Rightarrow> string \<Rightarrow> nat" where
  "count_matches t [] = (if t = [] then 1 else 0)"
| "count_matches t (c # cs) =
     (if prefix t (c # cs) then Suc (count_matches t (drop (length t - 1) cs))
      else count_matches t cs)"

text \<open>
  \<^verbatim>\<open>s.replace(new RegExp(term, 'gi'), match => `<mark>${match}</mark>`)\<close> for a term of
  lower-case word characters: a match is a stretch of the text whose lower-case form is the
  term.
\<close>

fun highlight :: "string \<Rightarrow> string \<Rightarrow> string" where
  "highlight t [] = []"
| "highlight t (c # cs) =
     (if t \<noteq> [] \<and> prefix t (toLowerCase (c # cs))
      then ''<mark>'' @ take (length t) (c # cs) @ ''</mark>'' @ highlight t (drop (length t - 1) cs)
      else c # highlight t cs)"

text \<open>The elements of a list in the order of their first occurrence, as a \<^verbatim>\<open>Set\<close> keeps them.\<close>

definition uniq :: "'a list \<Rightarrow> 'a list" where
  "uniq xs = rev (remdups (rev xs))"

section \<open>Front matter (app.js, editor.js, search.js)\<close>

text \<open>
  The three services carry the same \<^verbatim>\<open>parseFrontMatter\<close>.  A metadata value is a string
  or an array of strings; the metadata object is the map of its own properties.
\<close>

datatype fm_value = FStr string | FList "string list"

type_synonym metadata = "string \<rightharpoonup> fm_value"

record front_matter =
  fm_metadata :: "metadata option"
  fm_content :: string

text \<open>
  \<^verbatim>\<open>content.match(/^---\n([\s\S]*?)\n---\n([\s\S]*)$/)\<close>: the text starts with
  \<^verbatim>\<open>---\n\<close>, and the lazy group ends at the first \<^verbatim>\<open>\n---\n\<close> after it.  The result is
  the two groups.
\<close>

definition fm_open :: string where
  "fm_open = [CHR ''-'', CHR ''-'', CHR ''-'', nl]"

definition fm_close :: string where
  "fm_close = [nl, CHR ''-'', CHR ''-'', CHR ''-'', nl]"

definition frontMatterRegex :: "string \<Rightarrow> (string \<times> string) option" where
  "frontMatterRegex s =
     (if startsWith s fm_open then find_sub fm_close (drop (length fm_open) s) else None)"

text \<open>
  One line of the block: \<^verbatim>\<open>line.split(':')\<close> has two parts or more when the line has a
  colon; the key is what precedes the first colon and the value what follows it, both
  trimmed.  \<^verbatim>\<open>metadata[key] = ...\<close> sets an own property, except for the key
  \<^verbatim>\<open>__proto__\<close>, whose assignment creates none.
\<close>

definition parse_value :: "string \<Rightarrow> fm_value" where
  "parse_value v =
     (if startsWith v ''['' \<and> endsWith v '']''
      then FList (map trim (split_char (CHR '','') (butlast (tl v))))
      else FStr v)"

definition parse_line :: "metadata \<Rightarrow> string \<Rightarrow> metadata" where
  "parse_line m line =
     (let keyValue = split_char (CHR '':'') line in
      if length keyValue \<ge> 2 then
        (let key = trim (hd keyValue);
             v = trim (drop (Suc (length (hd keyValue))) line)
         in if key = ''__proto__'' then m else m(key \<mapsto> parse_value v))
      else m)"

definition parseFrontMatter :: "string \<Rightarrow> front_matter" where
  "parseFrontMatter s =
     (case frontMatterRegex s of
        Some (yamlText, rest) \<Rightarrow>
          \<lparr>fm_metadata = Some (foldl parse_line Map.empty (split_char nl yamlText)),
           fm_content = rest\<rparr>
      | None \<Rightarrow> \<lparr>fm_metadata = None, fm_content = s\<rparr>)"

section \<open>SearchService (search.js)\<close>

subsection \<open>Titles and tokens\<close>

text \<open>
  \<^verbatim>\<open>getFileTitle\<close>: the first line of the form \<^verbatim>\<open>/^# (.+)$/m\<close> gives the title (a line
  ends at a line feed or a carriage return, and \<^verbatim>\<open>.+\<close> wants one character at least);
  otherwise the last segment of the path, its first \<^verbatim>\<open>.md\<close> removed, \<^verbatim>\<open>-\<close> and
  \<^verbatim>\<open>_\<close> replaced by spaces and every word character at a word boundary (\<^verbatim>\<open>/\b\w/g\<close>)
  put in upper case.
\<close>

fun capitalize :: "bool \<Rightarrow> string \<Rightarrow> string" where
  "capitalize prev [] = []"
| "capitalize prev (c # cs) =
     (if is_word c \<and> \<not> prev then upper_char c else c) # capitalize (is_word c) cs"

definition title_line :: "string \<Rightarrow> bool" where
  "title_line l = (startsWith l ''# '' \<and> length l \<ge> 3)"

definition getFileTitle :: "string \<Rightarrow> string \<Rightarrow> string" where
  "getFileTitle path cont =
     (case find title_line (split_on (\<lambda>c. c = nl \<or> c = cr) cont) of
        Some l \<Rightarrow> drop 2 l
      | None \<Rightarrow>
          (let segments = split_char (CHR ''/'') path;
               seg = last segments;
               fileName = (case find_sub ''.md'' seg of Some (a, b) \<Rightarrow> a @ b | None \<Rightarrow> seg)
           in capitalize False
                (map (\<lambda>c. if c = CHR ''-'' \<or> c = CHR ''_'' then CHR '' '' else c) fileName)))"

text \<open>
  The words of a text:
  \<^verbatim>\<open>toLowerCase().replace(/[^\w\s]/g, ' ').split(/\s+/).filter(w => w && w.length > 2)\<close>.
  \<^verbatim>\<open>tokenize\<close> returns them as a \<^verbatim>\<open>Set\<close>; the query terms of \<^verbatim>\<open>searchInFiles\<close> are
  the array itself, repetitions included.
\<close>

definition replace_special :: "char \<Rightarrow> char" where
  "replace_special c = (if \<not> is_word c \<and> \<not> is_space c then CHR '' '' else c)"

definition words_of :: "string \<Rightarrow> string list" where
  "words_of s =
     filter (\<lambda>w. w \<noteq> [] \<and> length w > 2) (split_ws (map replace_special (toLowerCase s)))"

definition tokenize :: "string \<Rightarrow> string list" where
  "tokenize s = uniq (words_of s)"

subsection \<open>The index\<close>

record doc =
  doc_path :: string
  doc_title :: fm_value
  doc_content :: string
  doc_metadata :: "metadata option"

text \<open>
  \<^verbatim>\<open>this.searchIndex\<close> is \<^verbatim>\<open>null\<close> or a plain object from token to array of documents,
  modelled by the map of its own properties.  Reading a key that is no own property
  gives what \<^verbatim>\<open>Object.prototype\<close> has under that name: for the names below a value that
  is truthy and is no array, otherwise \<^verbatim>\<open>undefined\<close>.
\<close>

type_synonym search_index = "string \<rightharpoonup> doc list"

definition inherited :: "string \<Rightarrow> bool" where
  "inherited k =
     (k \<in> set [''constructor'', ''__proto__'', ''toString'', ''valueOf'', ''toLocaleString'',
               ''hasOwnProperty'', ''isPrototypeOf'', ''propertyIsEnumerable'',
               ''__defineGetter__'', ''__defineSetter__'', ''__lookupGetter__'',
               ''__lookupSetter__''])"

record search_state =
  searchIndex :: "search_index option"
  isIndexing :: bool
  indexedFiles :: "string set"

definition initial_state :: search_state where
  "initial_state = \<lparr>searchIndex = None, isIndexing = False, indexedFiles = {}\<rparr>"

text \<open>
  The collaborator \<^verbatim>\<open>window.wikiApp.content\<close> as the search service sees it: what
  \<^verbatim>\<open>await getFile(path)\<close> and \<^verbatim>\<open>await getDirectoryContents(path)\<close> settle to
  (\<open>Inl\<close>: the promise rejects).
\<close>

record item =
  item_name :: string
  item_path :: string
  item_type :: string

record content_service =
  cs_getFile :: "string \<Rightarrow> error + string option"
  cs_getDirectoryContents :: "string \<Rightarrow> error + item list"

subsection \<open>indexFile\<close>

text \<open>
  The loop over the tokens of a document:
  \<^verbatim>\<open>if (!this.searchIndex[token]) this.searchIndex[token] = []\<close>, then
  \<^verbatim>\<open>this.searchIndex[token].some(item => item.path === path)\<close> and the push.  Under an
  inherited name the first test finds a truthy value and \<^verbatim>\<open>.some\<close> is no function: the
  loop raises with the postings made so far in place.  The result is the index and whether
  the loop completed.
\<close>

fun post_tokens :: "doc \<Rightarrow> search_index \<Rightarrow> string list \<Rightarrow> search_index \<times> bool" where
  "post_tokens d idx [] = (idx, True)"
| "post_tokens d idx (t # ts) =
     (case idx t of
        None \<Rightarrow>
          if inherited t then (idx, False)
          else post_tokens d (idx(t \<mapsto> [d])) ts
      | Some ds \<Rightarrow>
          if list_ex (\<lambda>item. doc_path item = doc_path d) ds then post_tokens d idx ts
          else post_tokens d (idx(t \<mapsto> ds @ [d])) ts)"

text \<open>\<^verbatim>\<open>metadata?.title || this.getFileTitle(path, cleanContent)\<close>; an array is truthy.\<close>

definition title_of :: "metadata option \<Rightarrow> string \<Rightarrow> string \<Rightarrow> fm_value" where
  "title_of metadata path cleanContent =
     (case metadata of
        None \<Rightarrow> FStr (getFileTitle path cleanContent)
      | Some m \<Rightarrow>
          (case m ''title'' of
             None \<Rightarrow> FStr (getFileTitle path cleanContent)
           | Some (FStr s) \<Rightarrow> if s = [] then FStr (getFileTitle path cleanContent) else FStr s
           | Some (FList l) \<Rightarrow> FList l))"

definition make_doc :: "string \<Rightarrow> string \<Rightarrow> doc" where
  "make_doc path cont =
     (let fm = parseFrontMatter cont
      in \<lparr>doc_path = path,
          doc_title = title_of (fm_metadata fm) path (fm_content fm),
          doc_content = fm_content fm,
          doc_metadata = fm_metadata fm\<rparr>)"

text \<open>
  \<^verbatim>\<open>indexFile\<close>.  Everything after the \<^verbatim>\<open>indexedFiles\<close> test is inside
  \<^verbatim>\<open>try { ... } catch (error) { console.error(...) }\<close>: a rejected \<^verbatim>\<open>getFile\<close>, a missing
  content service, a \<^verbatim>\<open>null\<close> index and an inherited token name all end the call
  normally, with the state as it is at that point.  \<^verbatim>\<open>if (!content) return\<close> takes
  \<^verbatim>\<open>null\<close> and the empty string.
\<close>

definition indexFile :: "content_service option \<Rightarrow> string \<Rightarrow> search_state \<Rightarrow> search_state" where
  "indexFile app path st =
     (if path \<in> indexedFiles st then st
      else
        (case app of
           None \<Rightarrow> st
         | Some cs \<Rightarrow>
             (case cs_getFile cs path of
                Inl err \<Rightarrow> st
              | Inr None \<Rightarrow> st
              | Inr (Some cont) \<Rightarrow>
                  if cont = [] then st
                  else
                    (let d = make_doc path cont;
                         tokens = tokenize (doc_content d)
                     in case searchIndex st of
                          None \<Rightarrow>
                            if tokens = [] then st\<lparr>indexedFiles := insert path (indexedFiles st)\<rparr>
                            else st
                        | Some idx \<Rightarrow>
                            (case post_tokens d idx tokens of
                               (idx', True) \<Rightarrow>
                                 st\<lparr>searchIndex := Some idx',
                                    indexedFiles := insert path (indexedFiles st)\<rparr>
                             | (idx', False) \<Rightarrow> st\<lparr>searchIndex := Some idx'\<rparr>)))))"

subsection \<open>indexDirectory\<close>

text \<open>
  \<^verbatim>\<open>indexDirectory\<close> and its loop over the items of a listing.  The first argument bounds
  the depth of the recursion into subdirectories; \<open>None\<close> says that the bound was reached.
  Otherwise the result says whether the call returned (\<open>Inr ()\<close>) or raised, and gives the
  state at that point: a rejected \<^verbatim>\<open>getDirectoryContents\<close> is logged and raised again, and
  ends every enclosing loop.
\<close>

fun indexDirectory ::
    "nat \<Rightarrow> content_service option \<Rightarrow> string \<Rightarrow> search_state \<Rightarrow> ((error + unit) \<times> search_state) option"
  and indexItems ::
    "nat \<Rightarrow> content_service option \<Rightarrow> item list \<Rightarrow> search_state \<Rightarrow> ((error + unit) \<times> search_state) option"
where
  "indexDirectory 0 app path st = None"
| "indexDirectory (Suc n) app path st =
     (case app of
        None \<Rightarrow> Some (Inl ServiceUnavailable, st)
      | Some cs \<Rightarrow>
          (case cs_getDirectoryContents cs path of
             Inl err \<Rightarrow> Some (Inl err, st)
           | Inr contents \<Rightarrow> indexItems n app contents st))"
| "indexItems n app [] st = Some (Inr (), st)"
| "indexItems n app (it # rest) st =
     (if item_name it = ''.wiki-config.json'' \<or> item_name it = ''sidebar.md''
      then indexItems n app rest st
      else if item_type it = ''dir'' then
        (case indexDirectory n app (item_path it) st of
           None \<Rightarrow> None
         | Some (Inl err, st') \<Rightarrow> Some (Inl err, st')
         | Some (Inr u, st') \<Rightarrow> indexItems n app rest st')
      else if item_type it = ''file'' \<and> endsWith (item_name it) ''.md''
      then indexItems n app rest (indexFile app (item_path it) st)
      else indexItems n app rest st)"

text \<open>
  \<^verbatim>\<open>initSearchIndex\<close>: no-op when an index exists or is being built
  (\<^verbatim>\<open>if (this.searchIndex || this.isIndexing) return\<close>); otherwise the index
  becomes \<^verbatim>\<open>{}\<close> and the crawl starts at the root.  An error of the crawl is caught and
  logged; \<^verbatim>\<open>isIndexing\<close> is reset in either case.
\<close>

definition initSearchIndex :: "nat \<Rightarrow> content_service option \<Rightarrow> search_state \<Rightarrow> search_state option" where
  "initSearchIndex n app st =
     (if (case searchIndex st of Some idx \<Rightarrow> True | None \<Rightarrow> isIndexing st) then Some st
      else
        (case indexDirectory n app [] (st\<lparr>isIndexing := True, searchIndex := Some Map.empty\<rparr>) of
           None \<Rightarrow> None
         | Some (r, st') \<Rightarrow> Some (st'\<lparr>isIndexing := False\<rparr>)))"

subsection \<open>searchInFiles\<close>

record result =
  res_path :: string
  res_title :: fm_value
  res_excerpt :: string
  res_score :: nat

text \<open>
  The two accumulators of \<^verbatim>\<open>searchInFiles\<close>: \<^verbatim>\<open>docScores\<close>, from path to score, and
  \<^verbatim>\<open>termResults\<close>, from path to the first document seen for it, kept in insertion
  order, which is the order of \<^verbatim>\<open>Object.keys\<close> for keys that are no array indices.
  Both are keyed by document paths; they are modelled for paths that are neither array
  indices nor names of \<^verbatim>\<open>Object.prototype\<close>, as every path with a \<^verbatim>\<open>.\<close> in it is.
\<close>

type_synonym accum = "(string \<rightharpoonup> nat) \<times> (string \<times> doc) list"

definition add_score :: "string \<Rightarrow> nat \<Rightarrow> (string \<rightharpoonup> nat) \<Rightarrow> (string \<rightharpoonup> nat)" where
  "add_score path score docScores =
     docScores(path \<mapsto> (case docScores path of None \<Rightarrow> 0 | Some s \<Rightarrow> s) + score)"

definition doc_score :: "string \<Rightarrow> doc \<Rightarrow> error + nat" where
  "doc_score term d =
     (case doc_title d of
        FList l \<Rightarrow> Inl TypeError
      | FStr title \<Rightarrow>
          (let contentOccurrences = count_matches term (toLowerCase (doc_content d));
               titleOccurrences = count_matches term (toLowerCase title)
           in Inr (contentOccurrences + titleOccurrences * 3)))"

text \<open>
  The inner loop, \<^verbatim>\<open>for (const doc of matches)\<close>.  \<^verbatim>\<open>doc.title.toLowerCase()\<close> raises
  when the title is an array.
\<close>

fun score_docs :: "string \<Rightarrow> doc list \<Rightarrow> accum \<Rightarrow> error + accum" where
  "score_docs term [] acc = Inr acc"
| "score_docs term (d # ds) acc =
     (case doc_score term d of
        Inl err \<Rightarrow> Inl err
      | Inr score \<Rightarrow>
          score_docs term ds
            (add_score (doc_path d) score (fst acc),
             if map_of (snd acc) (doc_path d) = None then snd acc @ [(doc_path d, d)]
             else snd acc))"

text \<open>
  The outer loop, \<^verbatim>\<open>for (const term of queryTerms)\<close>, with
  \<^verbatim>\<open>matches = this.searchIndex[term] || []\<close>: an inherited name gives a value that
  \<^verbatim>\<open>for ... of\<close> cannot iterate, and the loop raises.
\<close>

fun score_terms :: "search_index \<Rightarrow> string list \<Rightarrow> accum \<Rightarrow> error + accum" where
  "score_terms idx [] acc = Inr acc"
| "score_terms idx (term # terms) acc =
     (case idx term of
        None \<Rightarrow> if inherited term then Inl TypeError else score_terms idx terms acc
      | Some matches \<Rightarrow>
          (case score_docs term matches acc of
             Inl err \<Rightarrow> Inl err
           | Inr acc' \<Rightarrow> score_terms idx terms acc'))"

definition make_result :: "string list \<Rightarrow> (string \<rightharpoonup> nat) \<Rightarrow> string \<times> doc \<Rightarrow> result" where
  "make_result queryTerms docScores pd =
     \<lparr>res_path = fst pd,
      res_title = doc_title (snd pd),
      res_excerpt = foldl (\<lambda>excerpt term. highlight term excerpt)
                      (take 200 (doc_content (snd pd)) @ ''...'') queryTerms,
      res_score = (case docScores (fst pd) of None \<Rightarrow> 0 | Some s \<Rightarrow> s)\<rparr>"

text \<open>
  \<^verbatim>\<open>searchInFiles\<close>; \<^verbatim>\<open>results.sort((a, b) => b.score - a.score)\<close> is a stable sort by
  descending score.
\<close>

definition searchInFiles :: "search_state \<Rightarrow> string \<Rightarrow> error + result list" where
  "searchInFiles st query =
     (case searchIndex st of
        None \<Rightarrow> Inr []
      | Some idx \<Rightarrow>
          (let queryTerms = words_of query in
           if queryTerms = [] then Inr []
           else
             (case score_terms idx queryTerms (Map.empty, []) of
                Inl err \<Rightarrow> Inl err
              | Inr (docScores, termResults) \<Rightarrow>
                  Inr (sort_key (\<lambda>r. - int (res_score r))
                         (map (make_result queryTerms docScores) termResults)))))"

subsection \<open>Notions for stating the properties of the index\<close>

text \<open>
  The three kinds of item that \<^verbatim>\<open>indexDirectory\<close> tells apart: the reserved names it
  skips, the subdirectories it descends into, the markdown files it hands to
  \<^verbatim>\<open>indexFile\<close>.
\<close>

definition reserved :: "item \<Rightarrow> bool" where
  "reserved it = (item_name it = ''.wiki-config.json'' \<or> item_name it = ''sidebar.md'')"

definition is_subdir :: "item \<Rightarrow> bool" where
  "is_subdir it = (\<not> reserved it \<and> item_type it = ''dir'')"

definition indexable :: "item \<Rightarrow> bool" where
  "indexable it = (\<not> reserved it \<and> item_type it = ''file'' \<and> endsWith (item_name it) ''.md'')"

text \<open>
  \<open>listed_under cs p g\<close>: the item \<open>g\<close> is in the listing of the directory \<open>p\<close> or of a
  subdirectory the crawl reaches from there.
\<close>

inductive listed_under :: "content_service \<Rightarrow> string \<Rightarrow> item \<Rightarrow> bool" for cs where
  here: "cs_getDirectoryContents cs p = Inr items \<Longrightarrow> g \<in> set items \<Longrightarrow> listed_under cs p g"
| below: "cs_getDirectoryContents cs p = Inr items \<Longrightarrow> d \<in> set items \<Longrightarrow> is_subdir d \<Longrightarrow>
          listed_under cs (item_path d) g \<Longrightarrow> listed_under cs p g"

text \<open>
  \<open>listings_ok n cs p\<close>: every directory listing of the tree under \<open>p\<close> succeeds, and the
  tree, \<open>p\<close> included, is at most \<open>n\<close> directories deep.
\<close>

fun listings_ok :: "nat \<Rightarrow> content_service \<Rightarrow> string \<Rightarrow> bool" where
  "listings_ok 0 cs p = False"
| "listings_ok (Suc n) cs p =
     (case cs_getDirectoryContents cs p of
        Inl err \<Rightarrow> False
      | Inr items \<Rightarrow> list_all (\<lambda>d. is_subdir d \<longrightarrow> listings_ok n cs (item_path d)) items)"

text \<open>The content service with the item \<open>f\<close> taken out of every listing.\<close>

definition without :: "item \<Rightarrow> content_service \<Rightarrow> content_service" where
  "without f cs =
     cs\<lparr>cs_getDirectoryContents :=
          (\<lambda>p. case cs_getDirectoryContents cs p of
                  Inl err \<Rightarrow> Inl err
                | Inr items \<Rightarrow> Inr (filter (\<lambda>i. i \<noteq> f) items))\<rparr>"

text \<open>
  \<open>posted idx p t\<close>: the posting list of the token \<open>t\<close> holds a document of path \<open>p\<close>.
  \<open>file_tokens cs p\<close>: the tokens of the body of the file \<open>p\<close>, when its fetch gives a
  content that is not empty.  \<open>postable ts\<close>: the tokens up to the first inherited name.
\<close>

definition posted :: "search_index \<Rightarrow> string \<Rightarrow> string \<Rightarrow> bool" where
  "posted idx p t =
     (case idx t of None \<Rightarrow> False | Some ds \<Rightarrow> list_ex (\<lambda>d. doc_path d = p) ds)"

definition st_posted :: "search_state \<Rightarrow> string \<Rightarrow> string \<Rightarrow> bool" where
  "st_posted st p t = (case searchIndex st of None \<Rightarrow> False | Some idx \<Rightarrow> posted idx p t)"

definition file_tokens :: "content_service \<Rightarrow> string \<Rightarrow> string list" where
  "file_tokens cs p =
     (case cs_getFile cs p of
        Inr (Some cont) \<Rightarrow> if cont = [] then [] else tokenize (doc_content (make_doc p cont))
      | _ \<Rightarrow> [])"

definition postable :: "string list \<Rightarrow> string list" where
  "postable ts = takeWhile (\<lambda>t. \<not> inherited t) ts"

text \<open>
  The score one document adds for one term, as \<^verbatim>\<open>searchInFiles\<close> computes it when the
  title is a string: the occurrences in the body plus three times those in the title, both
  counted in lower case.
\<close>

fun title_text :: "fm_value \<Rightarrow> string" where
  "title_text (FStr s) = s"
| "title_text (FList l) = []"

definition occurrences_score :: "string \<Rightarrow> doc \<Rightarrow> nat" where
  "occurrences_score term d =
     count_matches term (toLowerCase (doc_content d)) +
     3 * count_matches term (toLowerCase (title_text (doc_title d)))"

text \<open>The documents of path \<open>p\<close> in the posting list of a term (\<^verbatim>\<open>this.searchIndex[term] || []\<close>).\<close>

definition matches_of :: "search_index \<Rightarrow> string \<Rightarrow> string \<Rightarrow> doc list" where
  "matches_of idx p term =
     filter (\<lambda>d. doc_path d = p) (case idx term of None \<Rightarrow> [] | Some ds \<Rightarrow> ds)"

text \<open>
  The invariant of a crawl over the content service \<open>cs\<close>: there is an index, and every
  file recorded in \<^verbatim>\<open>indexedFiles\<close> is posted under the postable tokens of its body.
\<close>

definition all_posted :: "content_service \<Rightarrow> search_state \<Rightarrow> string \<Rightarrow> bool" where
  "all_posted cs st p = (\<forall>t \<in> set (postable (file_tokens cs p)). st_posted st p t)"

definition index_inv :: "content_service \<Rightarrow> search_state \<Rightarrow> bool" where
  "index_inv cs st = (searchIndex st \<noteq> None \<and> (\<forall>p \<in> indexedFiles st. all_posted cs st p))"

definition keeps_postings :: "search_state \<Rightarrow> search_state \<Rightarrow> bool" where
  "keeps_postings st st' = (\<forall>q t. st_posted st q t \<longrightarrow> st_posted st' q t)"

text \<open>
  What a crawl step from \<open>st\<close> to \<open>st'\<close> with outcome \<open>r\<close> establishes for the items
  \<open>G\<close> it was to cover.
\<close>

definition crawl_post ::
  "content_service \<Rightarrow> search_state \<Rightarrow> (error + unit) \<Rightarrow> search_state \<Rightarrow> (item \<Rightarrow> bool) \<Rightarrow> bool" where
  "crawl_post cs st r st' G =
     (index_inv cs st' \<and> keeps_postings st st' \<and>
      (r = Inr () \<longrightarrow> (\<forall>g. G g \<and> indexable g \<longrightarrow> all_posted cs st' (item_path g))))"

text \<open>
  The contract of the listings of the remote store: the path of an item ends with its
  name.  (So the path of a markdown file ends in \<^verbatim>\<open>.md\<close>.)
\<close>

definition paths_end_with_names :: "content_service \<Rightarrow> bool" where
  "paths_end_with_names cs =
     (\<forall>p items it. cs_getDirectoryContents cs p = Inr items \<and> it \<in> set items \<longrightarrow>
        endsWith (item_path it) (item_name it))"

text \<open>
  What holds of every index a crawl builds: a posting list has one document per path at
  most, and a document is posted only under tokens of its body.
\<close>

definition postings_sound :: "search_index \<Rightarrow> bool" where
  "postings_sound idx =
     (\<forall>t ds. idx t = Some ds \<longrightarrow>
        distinct (map doc_path ds) \<and> (\<forall>d \<in> set ds. t \<in> set (tokenize (doc_content d))))"

definition state_sound :: "search_state \<Rightarrow> bool" where
  "state_sound st = (case searchIndex st of None \<Rightarrow> True | Some idx \<Rightarrow> postings_sound idx)"

text \<open>The value of \<^verbatim>\<open>docScores[path] || 0\<close>.\<close>

definition score_at :: "(string \<rightharpoonup> nat) \<Rightarrow> string \<Rightarrow> nat" where
  "score_at docScores p = (case docScores p of None \<Rightarrow> 0 | Some s \<Rightarrow> s)"

text \<open>
  Where the postings of an index come from, for a crawl over the content service \<open>cs\<close>:
  no key of the index is an inherited name; every document of a posting list is the
  document that \<^verbatim>\<open>indexFile\<close> makes of the file at its path, fetched with a content that
  is not empty; and it is posted only under postable tokens of that file.
\<close>

definition postings_from :: "content_service \<Rightarrow> search_index \<Rightarrow> bool" where
  "postings_from cs idx =
     ((\<forall>t. inherited t \<longrightarrow> idx t = None) \<and>
      (\<forall>t ds d. idx t = Some ds \<and> d \<in> set ds \<longrightarrow>
         (\<exists>cont. cs_getFile cs (doc_path d) = Inr (Some cont) \<and> cont \<noteq> [] \<and>
                 d = make_doc (doc_path d) cont) \<and>
         t \<in> set (postable (file_tokens cs (doc_path d)))))"

definition state_from :: "content_service \<Rightarrow> search_state \<Rightarrow> bool" where
  "state_from cs st =
     (case searchIndex st of None \<Rightarrow> True | Some idx \<Rightarrow> postings_from cs idx)"

subsection \<open>A concrete wiki\<close>

text \<open>
  The root holds the directory \<^verbatim>\<open>v1.0\<close>, which holds \<^verbatim>\<open>v1.0/b.md\<close>
  (\<^verbatim>\<open>A zebra says hello\<close>), then \<^verbatim>\<open>c.md\<close>, whose fetch fails with status 500, and
  \<^verbatim>\<open>a.md\<close> (front matter with the title \<^verbatim>\<open>Hello Zebra\<close>, body \<^verbatim>\<open>Hello world\<close>).
  The directory has a dot in its name: \<^verbatim>\<open>ContentService.getDirectoryContents\<close> passes
  its argument through \<^verbatim>\<open>normalizePath\<close>, which appends \<^verbatim>\<open>.md\<close> to a name without one.
\<close>

definition a_item :: item where
  "a_item = \<lparr>item_name = ''a.md'', item_path = ''a.md'', item_type = ''file''\<rparr>"

definition c_item :: item where
  "c_item = \<lparr>item_name = ''c.md'', item_path = ''c.md'', item_type = ''file''\<rparr>"

definition dir_item :: item where
  "dir_item = \<lparr>item_name = ''v1.0'', item_path = ''v1.0'', item_type = ''dir''\<rparr>"

definition b_item :: item where
  "b_item = \<lparr>item_name = ''b.md'', item_path = ''v1.0/b.md'', item_type = ''file''\<rparr>"

definition a_text :: string where
  "a_text = ''---'' @ [nl] @ ''title: Hello Zebra'' @ [nl] @ ''---'' @ [nl] @ ''Hello world''"

definition b_text :: string where
  "b_text = ''A zebra says hello''"

definition wiki_cs :: content_service where
  "wiki_cs =
     \<lparr>cs_getFile =
        (\<lambda>p. if p = ''a.md'' then Inr (Some a_text)
             else if p = ''v1.0/b.md'' then Inr (Some b_text)
             else if p = ''c.md'' then Inl (ApiError 500)
             else Inr None),
      cs_getDirectoryContents =
        (\<lambda>p. if p = [] then Inr [dir_item, c_item, a_item]
             else if p = ''v1.0'' then Inr [b_item]
             else Inr [])\<rparr>"

text \<open>The state of the search service after its crawl of this wiki.\<close>

definition wiki_state :: search_state where
  "wiki_state = the (initSearchIndex 2 (Some wiki_cs) initial_state)"

text \<open>What the query \<^verbatim>\<open>hello\<close> returns there.\<close>

definition hello_a :: result where
  "hello_a =
     \<lparr>res_path = ''a.md'', res_title = FStr ''Hello Zebra'',
      res_excerpt = ''<mark>Hello</mark> world...'', res_score = 4\<rparr>"

definition hello_b :: result where
  "hello_b =
     \<lparr>res_path = ''v1.0/b.md'', res_title = FStr ''B'',
      res_excerpt = ''A zebra says <mark>hello</mark>...'', res_score = 1\<rparr>"

subsection \<open>A wiki with a page on constructors\<close>

text \<open>
  The root holds \<^verbatim>\<open>x.md\<close> (\<^verbatim>\<open>Constructor functions create objects\<close>), then \<^verbatim>\<open>c.md\<close>,
  whose fetch fails with status 500, and \<^verbatim>\<open>y.md\<close> (\<^verbatim>\<open>Zebras have stripes\<close>).
\<close>

definition x_item :: item where
  "x_item = \<lparr>item_name = ''x.md'', item_path = ''x.md'', item_type = ''file''\<rparr>"

definition y_item :: item where
  "y_item = \<lparr>item_name = ''y.md'', item_path = ''y.md'', item_type = ''file''\<rparr>"

definition x_text :: string where
  "x_text = ''Constructor functions create objects''"

definition y_text :: string where
  "y_text = ''Zebras have stripes''"

definition ctor_cs :: content_service where
  "ctor_cs =
     \<lparr>cs_getFile =
        (\<lambda>p. if p = ''x.md'' then Inr (Some x_text)
             else if p = ''y.md'' then Inr (Some y_text)
             else if p = ''c.md'' then Inl (ApiError 500)
             else Inr None),
      cs_getDirectoryContents =
        (\<lambda>p. if p = [] then Inr [x_item, c_item, y_item] else Inr [])\<rparr>"

text \<open>The state of the search service after its crawl of this wiki.\<close>

definition ctor_state :: search_state where
  "ctor_state = the (initSearchIndex 1 (Some ctor_cs) initial_state)"

section \<open>Properties of normalizePath\<close>

lemma includes_single: "str_includes s [c] \<longleftrightarrow> c \<in> set s"
proof
  assume "str_includes s [c]"
  then obtain ps ss where "s = ps @ [c] @ ss"
    by (auto simp: str_includes_def sublist_def)
  then show "c \<in> set s" by simp
next
  assume "c \<in> set s"
  then obtain ps ss where "s = ps @ c # ss" by (meson split_list)
  then have "s = ps @ [c] @ ss" by simp
  then show "str_includes s [c]" unfolding str_includes_def sublist_def by blast
qed

lemma endsWith_single: "endsWith s [c] \<longleftrightarrow> s \<noteq> [] \<and> last s = c"
proof
  assume "endsWith s [c]"
  then obtain zs where "s = zs @ [c]" by (auto simp: endsWith_def suffix_def)
  then show "s \<noteq> [] \<and> last s = c" by simp
next
  assume "s \<noteq> [] \<and> last s = c"
  then have "s = butlast s @ [c]" by (metis append_butlast_last_id)
  then show "endsWith s [c]" unfolding endsWith_def suffix_def by blast
qed

lemma rstrip_decomp: "q = rev (dropWhile P (rev q)) @ rev (takeWhile P (rev q))"
proof -
  have "rev q = takeWhile P (rev q) @ dropWhile P (rev q)" by simp
  then have "rev (rev q) = rev (takeWhile P (rev q) @ dropWhile P (rev q))" by (rule arg_cong)
  then show ?thesis by (simp only: rev_rev_ident rev_append)
qed

lemma strip_slashes_hd: "strip_slashes p \<noteq> [] \<Longrightarrow> hd (strip_slashes p) \<noteq> slash"
proof -
  assume ne: "strip_slashes p \<noteq> []"
  define q where "q = dropWhile (\<lambda>c. c = slash) p"
  have eq: "strip_slashes p = rev (dropWhile (\<lambda>c. c = slash) (rev q))"
    by (simp add: strip_slashes_def q_def)
  have dec: "q = strip_slashes p @ rev (takeWhile (\<lambda>c. c = slash) (rev q))"
    unfolding eq by (rule rstrip_decomp)
  with ne have qne: "q \<noteq> []" by auto
  then have hq: "hd q \<noteq> slash"
    unfolding q_def using hd_dropWhile [of "\<lambda>c. c = slash" p] by simp
  from dec ne have "hd q = hd (strip_slashes p)" by (metis hd_append2)
  with hq show ?thesis by simp
qed

lemma strip_slashes_last: "strip_slashes p \<noteq> [] \<Longrightarrow> last (strip_slashes p) \<noteq> slash"
proof -
  assume ne: "strip_slashes p \<noteq> []"
  define r where "r = dropWhile (\<lambda>c. c = slash) (rev (dropWhile (\<lambda>c. c = slash) p))"
  have eq: "strip_slashes p = rev r" by (simp add: strip_slashes_def r_def)
  with ne have rne: "r \<noteq> []" by simp
  then have "hd r \<noteq> slash"
    unfolding r_def
    using hd_dropWhile [of "\<lambda>c. c = slash" "rev (dropWhile (\<lambda>c. c = slash) p)"] by simp
  moreover have "last (rev r) = hd r" using rne by (simp add: last_rev)
  ultimately show ?thesis using eq by simp
qed

lemma strip_slashes_fixed:
  assumes "s = [] \<or> (hd s \<noteq> slash \<and> last s \<noteq> slash)"
  shows "strip_slashes s = s"
proof (cases s)
  case Nil
  then show ?thesis by (simp add: strip_slashes_def)
next
  case (Cons a t)
  with assms have h: "a \<noteq> slash" and l: "last s \<noteq> slash" by auto
  from h Cons have d: "dropWhile (\<lambda>c. c = slash) s = s" by simp
  from Cons have "rev s \<noteq> []" by simp
  moreover from l Cons have "hd (rev s) \<noteq> slash" by (metis hd_rev)
  ultimately have "dropWhile (\<lambda>c. c = slash) (rev s) = rev s"
    by (cases "rev s") auto
  with d show ?thesis by (simp add: strip_slashes_def)
qed

lemma strip_slashes_idem: "strip_slashes (strip_slashes p) = strip_slashes p"
  by (rule strip_slashes_fixed) (use strip_slashes_hd strip_slashes_last in blast)

lemma strip_slashes_subset: "set (strip_slashes p) \<subseteq> set p"
proof -
  have "set (strip_slashes p) \<subseteq> set (dropWhile (\<lambda>c. c = slash) p)"
    unfolding strip_slashes_def set_rev
    using set_dropWhileD [of _ "\<lambda>c. c = slash" "rev (dropWhile (\<lambda>c. c = slash) p)"]
    by auto
  also have "\<dots> \<subseteq> set p"
    using set_dropWhileD [of _ "\<lambda>c. c = slash" p] by auto
  finally show ?thesis .
qed

lemma strip_slashes_nonempty:
  assumes "p \<noteq> []" and "last p \<noteq> slash"
  shows "strip_slashes p \<noteq> []"
proof -
  have "last p \<in> set (dropWhile (\<lambda>c. c = slash) p)"
  proof -
    have "p = takeWhile (\<lambda>c. c = slash) p @ dropWhile (\<lambda>c. c = slash) p" by simp
    moreover have "last p \<notin> set (takeWhile (\<lambda>c. c = slash) p)"
      using assms(2) set_takeWhileD [of "last p" "\<lambda>c. c = slash" p] by auto
    moreover have "last p \<in> set p" using assms(1) by simp
    ultimately show ?thesis by (metis Un_iff set_append)
  qed
  then have ne: "dropWhile (\<lambda>c. c = slash) p \<noteq> []"
    by (metis empty_iff list.set(1))
  have "last (dropWhile (\<lambda>c. c = slash) p) = last p"
    using ne by (metis last_appendR takeWhile_dropWhile_id)
  then have "strip_slashes (dropWhile (\<lambda>c. c = slash) p) = dropWhile (\<lambda>c. c = slash) p"
    using ne assms(2) hd_dropWhile [of "\<lambda>c. c = slash" p]
    by (intro strip_slashes_fixed) auto
  moreover have "strip_slashes (dropWhile (\<lambda>c. c = slash) p) = strip_slashes p"
    by (simp add: strip_slashes_def)
  ultimately show ?thesis using ne by simp
qed

lemma normalizePath_alt:
  "normalizePath p =
     (if strip_slashes p \<noteq> [] \<and> CHR ''.'' \<notin> set (strip_slashes p)
      then strip_slashes p @ ''.md'' else strip_slashes p)"
proof -
  have "\<not> endsWith (strip_slashes p) ''/''"
    using strip_slashes_last [of p] by (auto simp: endsWith_single slash_def)
  then show ?thesis
    by (simp add: normalizePath_def Let_def includes_single)
qed

text \<open>
  C7, as stated, fails on the empty path: it has no extension and does not end in a
  separator, and the guard \<^verbatim>\<open>if (path && ...)\<close> leaves it empty.  (And the test for an
  extension is a dot anywhere in the path: \<^verbatim>\<open>v1.0/readme\<close> is left as it is.)
\<close>

theorem normalizePath_empty_counterexample:
  "\<not> str_includes [] ''.'' \<and> \<not> endsWith [] ''/'' \<and>
   normalizePath [] = [] \<and> normalizePath [] \<noteq> strip_slashes [] @ ''.md'' \<and>
   normalizePath ''v1.0/readme'' = ''v1.0/readme''"
  by (simp add: normalizePath_alt includes_single endsWith_single strip_slashes_def slash_def)

text \<open>
  C7 (amended): for every non-empty path \<open>p\<close> that contains no \<^verbatim>\<open>.\<close> (the code's test for
  an extension is a dot anywhere in the path) and does not end in a separator,
  \<open>normalizePath p\<close> is \<open>p\<close> with its leading and trailing slashes stripped and
  \<^verbatim>\<open>.md\<close> appended.
\<close>

theorem normalizePath_appends_md:
  assumes "p \<noteq> []" and "\<not> endsWith p ''/''" and "\<not> str_includes p ''.''"
  shows "normalizePath p = strip_slashes p @ ''.md''"
proof -
  from assms(1,2) have "last p \<noteq> slash" by (simp add: endsWith_single slash_def)
  with assms(1) have ne: "strip_slashes p \<noteq> []" by (rule strip_slashes_nonempty)
  from assms(3) have "CHR ''.'' \<notin> set p" by (simp add: includes_single)
  with strip_slashes_subset [of p] have "CHR ''.'' \<notin> set (strip_slashes p)" by auto
  with ne show ?thesis by (simp add: normalizePath_alt)
qed

theorem normalizePath_appends_md_witness:
  "''/docs/guide'' \<noteq> [] \<and> \<not> endsWith ''/docs/guide'' ''/'' \<and> \<not> str_includes ''/docs/guide'' ''.'' \<and>
   normalizePath ''/docs/guide'' = ''docs/guide.md''"
  using normalizePath_appends_md [of "''/docs/guide''"]
  by (simp add: includes_single endsWith_single strip_slashes_def slash_def)

text \<open>
  C8: \<open>normalizePath\<close> is idempotent: for every path \<open>p\<close>,
  \<open>normalizePath (normalizePath p) = normalizePath p\<close>.
\<close>

theorem normalizePath_idempotent: "normalizePath (normalizePath p) = normalizePath p"
proof (cases "strip_slashes p \<noteq> [] \<and> CHR ''.'' \<notin> set (strip_slashes p)")
  case True
  let ?s = "strip_slashes p"
  from True have n: "normalizePath p = ?s @ ''.md''" by (simp add: normalizePath_alt)
  from True have "hd (?s @ ''.md'') \<noteq> slash" using strip_slashes_hd [of p] by simp
  moreover have "last (?s @ ''.md'') \<noteq> slash" by (simp add: slash_def)
  ultimately have "strip_slashes (?s @ ''.md'') = ?s @ ''.md''"
    by (intro strip_slashes_fixed) simp
  then have "normalizePath (?s @ ''.md'') = ?s @ ''.md''"
    by (simp add: normalizePath_alt)
  with n show ?thesis by simp
next
  case False
  then have n: "normalizePath p = strip_slashes p" by (simp add: normalizePath_alt)
  have "normalizePath (strip_slashes p) = strip_slashes p"
    using False by (simp add: normalizePath_alt strip_slashes_idem)
  with n show ?thesis by simp
qed

section \<open>Properties of the cache and of getFile\<close>

lemma cacheTTL_value: "cacheTTL = 300000"
  by (simp add: cacheTTL_def)

lemma getFromCache_other: "q \<noteq> path \<Longrightarrow> snd (getFromCache c now path) q = c q"
  by (simp add: getFromCache_def split: option.splits)

lemma getFromCache_same:
  "snd (getFromCache c now path) path =
     (case c path of
        None \<Rightarrow> None
      | Some en \<Rightarrow> if now - timestamp en > cacheTTL then None else Some en)"
  by (simp add: getFromCache_def split: option.splits)

lemma getFromCache_served:
  "fst (getFromCache c now path) = Some s \<longleftrightarrow>
     (\<exists>en. c path = Some en \<and> content en = s \<and> now - timestamp en \<le> cacheTTL)"
  by (auto simp: getFromCache_def split: option.splits)

text \<open>
  A second read of the cache that \<open>getFromCache\<close> left behind, at any time: what is
  served is an entry of the first cache.
\<close>

lemma getFromCache_twice_content:
  assumes "fst (getFromCache (snd (getFromCache c now path)) now2 path) = Some s"
  shows "\<exists>en. c path = Some en \<and> content en = s \<and> now - timestamp en \<le> cacheTTL"
proof -
  from assms obtain en where
    en: "snd (getFromCache c now path) path = Some en" "content en = s"
    by (auto simp: getFromCache_served)
  then show ?thesis
    by (auto simp: getFromCache_same split: option.splits if_splits)
qed

text \<open>
  C1 fails on a file whose content is the empty string.  The store answers 200 with an
  empty body; \<open>getFile\<close> caches it, and the call made 10 ms later (well within the
  TTL) reads the entry, finds \<^verbatim>\<open>''\<close> falsy at \<^verbatim>\<open>if (cachedContent)\<close> and issues a second
  request: two fetches in total.
\<close>

theorem getFile_empty_content_fetched_twice:
  "(let (r1, q1, c1) = getFile empty_file_env Map.empty 1000 1005 ''empty.md'';
        (r2, q2, c2) = getFile empty_file_env c1 1015 1020 ''empty.md''
    in r1 = Inr (Some []) \<and> c1 ''empty.md'' = Some \<lparr>content = [], timestamp = 1005\<rparr> \<and>
       1015 - 1005 < cacheTTL \<and> r2 = Inr (Some []) \<and> length q1 = 1 \<and> length q2 = 1)"
  by (simp add: getFile_def empty_file_env_def normalizePath_alt strip_slashes_def slash_def
      getFromCache_def getApiUrl_def getConfig_def ok_def addToCache_def cacheTTL_def Let_def)

text \<open>
  For content that is not empty the cache does answer: after a fetch at \<open>later\<close>, a call
  at any \<open>now2\<close> with \<open>now2 - later \<le> cacheTTL\<close> issues no request.
\<close>

lemma getFile_fresh_nonempty_no_fetch:
  assumes first: "getFile e c now later p = (Inr (Some body), [req], c1)"
      and nonempty: "body \<noteq> []"
      and fresh: "now2 - later \<le> cacheTTL"
  shows "getFile e c1 now2 later2 p = (Inr (Some body), [], c1)"
proof -
  let ?path = "normalizePath p"
  obtain cc c0 where g: "getFromCache c now ?path = (cc, c0)" by (cases "getFromCache c now ?path")
  have "c1 = addToCache c0 later ?path body"
    using first g
    by (auto simp: getFile_def Let_def split: if_splits sum.splits http_response.splits)
  then have "c1 ?path = Some \<lparr>content = body, timestamp = later\<rparr>"
    by (simp add: addToCache_def)
  then have "getFromCache c1 now2 ?path = (Some body, c1)"
    using fresh by (simp add: getFromCache_def)
  then show ?thesis using nonempty by (simp add: getFile_def Let_def)
qed

text \<open>
  C2, as stated, fails at the boundary: an entry whose age is exactly the TTL
  (\<open>now - fetchedAt = 300000\<close>, so not \<open>< TTL\<close>) is still served and stays in the cache,
  since the test is \<^verbatim>\<open>Date.now() - cached.timestamp > this.cacheTTL\<close>.
\<close>

theorem getFromCache_boundary_counterexample:
  "\<not> (300000 - 0 < cacheTTL) \<and>
   getFromCache (Map.empty(''a.md'' \<mapsto> \<lparr>content = ''x'', timestamp = 0\<rparr>)) 300000 ''a.md''
     = (Some ''x'', Map.empty(''a.md'' \<mapsto> \<lparr>content = ''x'', timestamp = 0\<rparr>))"
  by (simp add: getFromCache_def cacheTTL_def)

text \<open>
  C2 (amended): the TTL is 300000 ms, and an entry is treated as valid only while
  \<open>now - fetchedAt \<le> TTL\<close>.  The cache serves a content only from an entry of that age;
  an entry whose age has passed the TTL (\<open>now - fetchedAt > TTL\<close>) is never served, is
  removed by that read of its path, and makes \<open>getFile\<close> issue a request.  The removal is
  lazy: a read leaves every other path's entry, expired or not, as it is.
\<close>

theorem cache_ttl_validity:
  "cacheTTL = 300000 \<and>
   (\<forall>s. fst (getFromCache c now path) = Some s \<longrightarrow>
        (\<exists>en. c path = Some en \<and> content en = s \<and> now - timestamp en \<le> cacheTTL)) \<and>
   (\<forall>en. c path = Some en \<and> now - timestamp en > cacheTTL \<longrightarrow>
        getFromCache c now path = (None, c(path := None))) \<and>
   (\<forall>en. c (normalizePath p) = Some en \<and> now - timestamp en > cacheTTL \<and>
         getApiUrl e (normalizePath p) = Inr url \<longrightarrow>
        fst (snd (getFile e c now later p)) = [getFile_request e url]) \<and>
   (\<forall>q. q \<noteq> path \<longrightarrow> snd (getFromCache c now path) q = c q)"
proof (intro conjI allI impI)
  show "cacheTTL = 300000" by (rule cacheTTL_value)
next
  fix s assume "fst (getFromCache c now path) = Some s"
  then show "\<exists>en. c path = Some en \<and> content en = s \<and> now - timestamp en \<le> cacheTTL"
    by (simp add: getFromCache_served)
next
  fix en assume "c path = Some en \<and> now - timestamp en > cacheTTL"
  then show "getFromCache c now path = (None, c(path := None))"
    by (simp add: getFromCache_def)
next
  fix en
  assume a: "c (normalizePath p) = Some en \<and> now - timestamp en > cacheTTL \<and>
             getApiUrl e (normalizePath p) = Inr url"
  then have "getFromCache c now (normalizePath p) = (None, c(normalizePath p := None))"
    by (simp add: getFromCache_def)
  with a show "fst (snd (getFile e c now later p)) = [getFile_request e url]"
    by (simp add: getFile_def Let_def split: http_response.splits)
next
  fix q assume "q \<noteq> path"
  then show "snd (getFromCache c now path) q = c q" by (rule getFromCache_other)
qed

theorem cache_ttl_validity_witness:
  "fst (getFromCache aged_cache 300000 ''a.md'') = Some ''x'' \<and>
   aged_cache ''a.md'' = Some \<lparr>content = ''x'', timestamp = 0\<rparr> \<and>
   300000 - timestamp \<lparr>content = ''x'', timestamp = 0\<rparr> \<le> cacheTTL \<and>
   300001 - timestamp \<lparr>content = ''x'', timestamp = 0\<rparr> > cacheTTL \<and>
   getFromCache aged_cache 300001 ''a.md'' = (None, aged_cache(''a.md'' := None)) \<and>
   getApiUrl empty_file_env (normalizePath ''a'')
     = Inr ''https://api.github.com/repos/o/r/contents/a.md?ref=main'' \<and>
   fst (snd (getFile empty_file_env aged_cache 300001 300002 ''a''))
     = [getFile_request empty_file_env ''https://api.github.com/repos/o/r/contents/a.md?ref=main''] \<and>
   ''b.md'' \<noteq> ''a.md'' \<and>
   snd (getFromCache aged_cache 300001 ''a.md'') ''b.md'' = aged_cache ''b.md''"
proof -
  let ?en = "\<lparr>content = ''x'', timestamp = 0\<rparr>"
  let ?url = "''https://api.github.com/repos/o/r/contents/a.md?ref=main''"
  note t = cache_ttl_validity [of aged_cache 300001 "''a.md''" "''a''" empty_file_env ?url 300002]
  have n: "normalizePath ''a'' = ''a.md''"
    by (simp add: normalizePath_alt strip_slashes_def slash_def)
  have served: "fst (getFromCache aged_cache 300000 ''a.md'') = Some ''x''"
    by (simp add: getFromCache_def aged_cache_def cacheTTL_def)
  have en: "aged_cache ''a.md'' = Some ?en" by (simp add: aged_cache_def)
  have old: "300001 - timestamp ?en > cacheTTL" by (simp add: cacheTTL_def)
  have young: "300000 - timestamp ?en \<le> cacheTTL" by (simp add: cacheTTL_def)
  have url: "getApiUrl empty_file_env (normalizePath ''a'') = Inr ?url"
    by (simp add: n getApiUrl_def getConfig_def empty_file_env_def)
  note evict = t [THEN conjunct2, THEN conjunct2, THEN conjunct1, rule_format, OF conjI [OF en old]]
  note fetch = t [THEN conjunct2, THEN conjunct2, THEN conjunct2, THEN conjunct1, rule_format,
      OF conjI [OF en [folded n] conjI [OF old url]]]
  have ne: "''b.md'' \<noteq> ''a.md''" by simp
  note other = t [THEN conjunct2, THEN conjunct2, THEN conjunct2, THEN conjunct2, rule_format,
      OF ne]
  show ?thesis
    by (intro conjI) (rule served en young old evict url fetch ne other)+
qed

text \<open>
  C10, as stated, fails when the path has an expired entry: the read that precedes the
  request removes it, so the cache is not left unchanged although the store answers 404.
\<close>

theorem getFile_not_found_evicts_counterexample:
  "remote missing_env
     (getFile_request missing_env ''https://api.github.com/repos/o/r/contents/a.md?ref=main'')
     = Response 404 not_found_text (Some not_found) \<and>
   getFile missing_env aged_cache 300001 300002 ''a.md''
     = (Inr None,
        [getFile_request missing_env ''https://api.github.com/repos/o/r/contents/a.md?ref=main''],
        aged_cache(''a.md'' := None)) \<and>
   aged_cache ''a.md'' = Some \<lparr>content = ''x'', timestamp = 0\<rparr> \<and>
   (aged_cache(''a.md'' := None)) ''a.md'' = None"
  by (simp add: getFile_def missing_env_def aged_cache_def normalizePath_alt strip_slashes_def
      slash_def getFromCache_def getApiUrl_def getConfig_def ok_def cacheTTL_def Let_def)

text \<open>
  C10 (amended): when \<open>getFile\<close> issues its request and the store answers 404, it returns
  the \<^verbatim>\<open>null\<close> sentinel and adds no entry to the cache: the cache afterwards is the cache
  before, except that an entry of that path whose age has passed the TTL has been removed
  by the read.  Every later \<open>getFile\<close> of the path, at any time, issues the request again
  (and returns \<^verbatim>\<open>null\<close> while the store still answers 404).
\<close>

theorem getFile_not_found_not_cached:
  assumes issued: "fst (snd (getFile e c now later p)) = [req]"
      and nf: "remote e req = Response 404 b js"
  shows "fst (getFile e c now later p) = Inr None \<and>
         snd (snd (getFile e c now later p)) (normalizePath p) =
           (case c (normalizePath p) of
              None \<Rightarrow> None
            | Some en \<Rightarrow> if now - timestamp en > cacheTTL then None else Some en) \<and>
         (\<forall>q. q \<noteq> normalizePath p \<longrightarrow> snd (snd (getFile e c now later p)) q = c q) \<and>
         (\<forall>now2 later2.
            fst (getFile e (snd (snd (getFile e c now later p))) now2 later2 p) = Inr None \<and>
            fst (snd (getFile e (snd (snd (getFile e c now later p))) now2 later2 p)) = [req])"
proof -
  let ?path = "normalizePath p"
  obtain cc c1 where g: "getFromCache c now ?path = (cc, c1)"
    by (cases "getFromCache c now ?path")
  from issued g have miss: "\<not> truthy_str cc"
    by (auto simp: getFile_def Let_def split: if_splits)
  from issued g miss obtain url where url: "getApiUrl e ?path = Inr url"
    by (cases "getApiUrl e ?path") (auto simp: getFile_def Let_def)
  from issued g miss url have req: "req = getFile_request e url"
    by (auto simp: getFile_def Let_def split: http_response.splits if_splits)
  have "\<not> ok 404" by (simp add: ok_def)
  with g miss url req nf
  have first: "getFile e c now later p = (Inr None, [req], c1)"
    by (simp add: getFile_def Let_def)
  have c1: "c1 = snd (getFromCache c now ?path)" using g by simp
  have again: "getFile e c1 now2 later2 p = (Inr None, [req], snd (getFromCache c1 now2 ?path))"
    for now2 later2
  proof -
    obtain cc2 c2 where g2: "getFromCache c1 now2 ?path = (cc2, c2)"
      by (cases "getFromCache c1 now2 ?path")
    have "\<not> truthy_str cc2"
    proof (cases cc2)
      case None
      then show ?thesis by simp
    next
      case (Some s)
      with g2 c1 have "fst (getFromCache (snd (getFromCache c now ?path)) now2 ?path) = Some s"
        by simp
      then have "fst (getFromCache c now ?path) = Some s"
        using getFromCache_twice_content [of c now ?path now2 s]
        by (simp add: getFromCache_served)
      with g miss Some show ?thesis by simp
    qed
    with g2 url req nf \<open>\<not> ok 404\<close> show ?thesis
      by (simp add: getFile_def Let_def)
  qed
  show ?thesis
  proof (intro conjI allI impI)
    show "fst (getFile e c now later p) = Inr None" by (simp add: first)
    show "snd (snd (getFile e c now later p)) ?path =
            (case c ?path of
               None \<Rightarrow> None
             | Some en \<Rightarrow> if now - timestamp en > cacheTTL then None else Some en)"
      by (simp add: first c1 getFromCache_same)
    show "snd (snd (getFile e c now later p)) q = c q" if "q \<noteq> ?path" for q
      using that by (simp add: first c1 getFromCache_other)
    show "fst (getFile e (snd (snd (getFile e c now later p))) now2 later2 p) = Inr None"
      for now2 later2
      by (simp add: first again)
    show "fst (snd (getFile e (snd (snd (getFile e c now later p))) now2 later2 p)) = [req]"
      for now2 later2
      by (simp add: first again)
  qed
qed

theorem getFile_not_found_not_cached_witness:
  "fst (snd (getFile missing_env aged_cache 300001 300002 ''a.md''))
     = [getFile_request missing_env ''https://api.github.com/repos/o/r/contents/a.md?ref=main''] \<and>
   remote missing_env
     (getFile_request missing_env ''https://api.github.com/repos/o/r/contents/a.md?ref=main'')
     = Response 404 not_found_text (Some not_found) \<and>
   fst (getFile missing_env aged_cache 300001 300002 ''a.md'') = Inr None \<and>
   fst (snd (getFile missing_env (snd (snd (getFile missing_env aged_cache 300001 300002 ''a.md'')))
               300003 300004 ''a.md''))
     = [getFile_request missing_env ''https://api.github.com/repos/o/r/contents/a.md?ref=main'']"
proof -
  let ?req = "getFile_request missing_env ''https://api.github.com/repos/o/r/contents/a.md?ref=main''"
  have issued: "fst (snd (getFile missing_env aged_cache 300001 300002 ''a.md'')) = [?req]"
    by (simp add: getFile_def missing_env_def aged_cache_def normalizePath_alt strip_slashes_def
        slash_def getFromCache_def getApiUrl_def getConfig_def ok_def cacheTTL_def Let_def)
  have nf: "remote missing_env ?req = Response 404 not_found_text (Some not_found)"
    by (simp add: missing_env_def)
  note t = getFile_not_found_not_cached [OF issued nf]
  note r1 = t [THEN conjunct1]
  note r2 = t [THEN conjunct2, THEN conjunct2, THEN conjunct2, rule_format, THEN conjunct2,
      of 300003 300004]
  show ?thesis
    by (intro conjI) (rule issued nf r1 r2)+
qed

section \<open>Properties of saveFile\<close>

text \<open>
  C6: a \<open>saveFile\<close> call made without a credential (no token, or an empty one) raises at
  once: no request is issued to the remote store and the cache is left as it was.
\<close>

theorem saveFile_requires_auth:
  assumes "\<not> truthy_str (getAuthToken e)"
  shows "saveFile e c later p cont message = (Inl NotAuthenticated, [], c)"
proof (cases "getAuthToken e")
  case None
  then show ?thesis by (simp add: saveFile_def Let_def)
next
  case (Some token)
  with assms have "token = []" by simp
  with Some show ?thesis by (simp add: saveFile_def Let_def)
qed

theorem saveFile_requires_auth_witness:
  "\<not> truthy_str (getAuthToken missing_env) \<and>
   saveFile missing_env aged_cache 5 ''a'' ''text'' ''Update file''
     = (Inl NotAuthenticated, [], aged_cache)"
proof -
  have h: "\<not> truthy_str (getAuthToken missing_env)"
    by (simp add: getAuthToken_def missing_env_def)
  from h saveFile_requires_auth [OF h] show ?thesis by (rule conjI)
qed

lemma read_sha_Some:
  "read_sha r = Some v \<longleftrightarrow>
     (\<exists>st b fs. r = Response st b (Some (JObj fs)) \<and> 200 \<le> st \<and> st \<le> 299 \<and>
        map_of fs ''sha'' = Some v)"
proof (cases r)
  case NetworkError
  then show ?thesis by (simp add: read_sha_def)
next
  case (Response st b js)
  show ?thesis
  proof (cases js)
    case None
    with Response show ?thesis by (simp add: read_sha_def)
  next
    case (Some fileData)
    with Response show ?thesis
      by (cases fileData) (auto simp: read_sha_def ok_def)
  qed
qed

lemma truthy_iff:
  "truthy v \<longleftrightarrow> v \<noteq> JNull \<and> v \<noteq> JBool False \<and> v \<noteq> JNum 0 \<and> v \<noteq> JStr []"
  by (cases v) auto

text \<open>
  C5: an authenticated \<open>saveFile\<close> (repository configured, content encodable) issues two
  requests to the URL of the path, both carrying the token: a \<^verbatim>\<open>GET\<close> without body, then
  a \<^verbatim>\<open>PUT\<close> whose body is the object \<^verbatim>\<open>{message, content, branch}\<close> followed by the
  fields \<open>sha_field\<close>.  These are the one field \<^verbatim>\<open>sha\<close> with the value \<open>v\<close> if and only
  if the read was answered with a status from 200 to 299 and an object whose \<^verbatim>\<open>sha\<close> is
  \<open>v\<close>, a value other than \<^verbatim>\<open>null\<close>, \<^verbatim>\<open>false\<close>, \<^verbatim>\<open>0\<close> and the empty string
  (update); and they are empty, the body having no \<^verbatim>\<open>sha\<close> field at all, if and only if
  the read gave no such value: it failed, was answered with another status (404 for a file
  that does not exist), or its body held no \<^verbatim>\<open>sha\<close> (create).
\<close>

theorem saveFile_conditional_sha:
  assumes token: "getAuthToken e = Some token" "token \<noteq> []"
      and url: "getApiUrl e (normalizePath p) = Inr url"
      and enc: "btoa e cont = Some encoded"
  shows "\<exists>rd wr sha_field.
           fst (snd (saveFile e c later p cont message)) = [rd, wr] \<and>
           rd = \<lparr>req_method = GET, req_url = url,
                 req_headers = [(''Authorization'', ''token '' @ token)],
                 req_body = None\<rparr> \<and>
           wr = \<lparr>req_method = PUT, req_url = url,
                 req_headers = [(''Authorization'', ''token '' @ token),
                                (''Content-Type'', ''application/json'')],
                 req_body =
                   Some (JObj ([(''message'', JStr message), (''content'', JStr encoded),
                                (''branch'', JStr (defaultBranch (getConfig e)))] @ sha_field))\<rparr> \<and>
           (\<forall>v. sha_field = [(''sha'', v)] \<longleftrightarrow>
                (\<exists>st b fs. remote e rd = Response st b (Some (JObj fs)) \<and>
                   200 \<le> st \<and> st \<le> 299 \<and> map_of fs ''sha'' = Some v \<and>
                   v \<noteq> JNull \<and> v \<noteq> JBool False \<and> v \<noteq> JNum 0 \<and> v \<noteq> JStr [])) \<and>
           (sha_field = [] \<longleftrightarrow>
              \<not> (\<exists>st b fs v. remote e rd = Response st b (Some (JObj fs)) \<and>
                    200 \<le> st \<and> st \<le> 299 \<and> map_of fs ''sha'' = Some v \<and>
                   v \<noteq> JNull \<and> v \<noteq> JBool False \<and> v \<noteq> JNum 0 \<and> v \<noteq> JStr []))"
proof -
  let ?rd = "\<lparr>req_method = GET, req_url = url,
              req_headers = [(''Authorization'', ''token '' @ token)], req_body = None\<rparr>"
  let ?r = "remote e ?rd"
  let ?found = "\<lambda>v. \<exists>st b fs. ?r = Response st b (Some (JObj fs)) \<and>
                  200 \<le> st \<and> st \<le> 299 \<and> map_of fs ''sha'' = Some v \<and>
                   v \<noteq> JNull \<and> v \<noteq> JBool False \<and> v \<noteq> JNum 0 \<and> v \<noteq> JStr []"
  let ?sha_field = "case read_sha ?r of
                   Some v \<Rightarrow> if truthy v then [(''sha'', v)] else []
                 | None \<Rightarrow> []"
  let ?wr = "\<lparr>req_method = PUT, req_url = url,
              req_headers = [(''Authorization'', ''token '' @ token),
                             (''Content-Type'', ''application/json'')],
              req_body =
                Some (JObj ([(''message'', JStr message), (''content'', JStr encoded),
                             (''branch'', JStr (defaultBranch (getConfig e)))] @ ?sha_field))\<rparr>"
  have reqs: "fst (snd (saveFile e c later p cont message)) = [?rd, ?wr]"
    using token url enc
    by (simp add: saveFile_def read_request_def write_request_def requestBody_def Let_def
        split: http_response.splits option.splits)
  have found: "?found v \<longleftrightarrow> read_sha ?r = Some v \<and> truthy v" for v
    unfolding read_sha_Some truthy_iff by blast
  have one: "?sha_field = [(''sha'', v)] \<longleftrightarrow> ?found v" for v
    unfolding found by (cases "read_sha ?r") auto
  have none: "?sha_field = [] \<longleftrightarrow> \<not> (\<exists>v. ?found v)"
    unfolding found by (cases "read_sha ?r") auto
  have none': "?sha_field = [] \<longleftrightarrow>
      \<not> (\<exists>st b fs v. ?r = Response st b (Some (JObj fs)) \<and>
            200 \<le> st \<and> st \<le> 299 \<and> map_of fs ''sha'' = Some v \<and>
                   v \<noteq> JNull \<and> v \<noteq> JBool False \<and> v \<noteq> JNum 0 \<and> v \<noteq> JStr [])"
    unfolding none by blast
  show ?thesis
  proof (intro exI conjI)
    show "fst (snd (saveFile e c later p cont message)) = [?rd, ?wr]" by (rule reqs)
    show "?rd = ?rd" by (rule refl)
    show "?wr = ?wr" by (rule refl)
    show "\<forall>v. ?sha_field = [(''sha'', v)] \<longleftrightarrow> ?found v" using one by blast
    show "?sha_field = [] \<longleftrightarrow>
      \<not> (\<exists>st b fs v. ?r = Response st b (Some (JObj fs)) \<and>
            200 \<le> st \<and> st \<le> 299 \<and> map_of fs ''sha'' = Some v \<and>
                   v \<noteq> JNull \<and> v \<noteq> JBool False \<and> v \<noteq> JNum 0 \<and> v \<noteq> JStr [])"
      by (rule none')
  qed
qed

theorem saveFile_conditional_sha_witness:
  "getAuthToken existing_env = Some ''t0k'' \<and> ''t0k'' \<noteq> [] \<and>
   getApiUrl existing_env (normalizePath ''a'') = Inr a_url \<and>
   btoa existing_env ''text'' = Some ''dGV4dA=='' \<and>
   remote existing_env a_read = Response 200 file_meta_text (Some file_meta) \<and>
   fst (snd (saveFile existing_env Map.empty 5 ''a'' ''text'' ''Update file''))
     = [a_read, a_write [(''sha'', JStr ''3f2a'')]] \<and>
   remote creating_env a_read = Response 404 not_found_text (Some not_found) \<and>
   fst (snd (saveFile creating_env Map.empty 5 ''a'' ''text'' ''Update file''))
     = [a_read, a_write []]"
proof -
  have n: "normalizePath ''a'' = ''a.md''"
    by (simp add: normalizePath_alt strip_slashes_def slash_def)
  have tok: "getAuthToken existing_env = Some ''t0k''" "getAuthToken creating_env = Some ''t0k''"
    by (simp_all add: getAuthToken_def existing_env_def creating_env_def)
  have ne: "''t0k'' \<noteq> []" by simp
  have url: "getApiUrl existing_env (normalizePath ''a'') = Inr a_url"
    "getApiUrl creating_env (normalizePath ''a'') = Inr a_url"
    by (simp_all add: n getApiUrl_def getConfig_def existing_env_def creating_env_def a_url_def)
  have enc: "btoa existing_env ''text'' = Some ''dGV4dA==''"
    "btoa creating_env ''text'' = Some ''dGV4dA==''"
    by (simp_all add: existing_env_def creating_env_def btoa_text_def)
  have br: "defaultBranch (getConfig existing_env) = ''main''"
    "defaultBranch (getConfig creating_env) = ''main''"
    by (simp_all add: getConfig_def existing_env_def creating_env_def)
  have found: "remote existing_env a_read = Response 200 file_meta_text (Some file_meta)"
    by (simp add: existing_env_def a_read_def)
  have missing: "remote creating_env a_read = Response 404 not_found_text (Some not_found)"
    by (simp add: creating_env_def a_read_def)
  have app: "''token '' @ ''t0k'' = ''token t0k''" by simp
  from saveFile_conditional_sha [OF tok(1) ne url(1) enc(1), of Map.empty 5 "''Update file''",
      unfolded br app]
  obtain sha_field where
    b: "fst (snd (saveFile existing_env Map.empty 5 ''a'' ''text'' ''Update file''))
          = [a_read, a_write sha_field]"
    and s: "\<forall>v. sha_field = [(''sha'', v)] \<longleftrightarrow>
              (\<exists>st b fs. remote existing_env a_read = Response st b (Some (JObj fs)) \<and>
                 200 \<le> st \<and> st \<le> 299 \<and> map_of fs ''sha'' = Some v \<and>
                 v \<noteq> JNull \<and> v \<noteq> JBool False \<and> v \<noteq> JNum 0 \<and> v \<noteq> JStr [])"
    unfolding a_read_def a_write_def by blast
  have "sha_field = [(''sha'', JStr ''3f2a'')]"
    unfolding s [rule_format] found by (simp add: file_meta_def)
  with b have update:
    "fst (snd (saveFile existing_env Map.empty 5 ''a'' ''text'' ''Update file''))
       = [a_read, a_write [(''sha'', JStr ''3f2a'')]]"
    by simp
  from saveFile_conditional_sha [OF tok(2) ne url(2) enc(2), of Map.empty 5 "''Update file''",
      unfolded br app]
  obtain sha_field' where
    b': "fst (snd (saveFile creating_env Map.empty 5 ''a'' ''text'' ''Update file''))
          = [a_read, a_write sha_field']"
    and s': "sha_field' = [] \<longleftrightarrow>
              \<not> (\<exists>st b fs v. remote creating_env a_read = Response st b (Some (JObj fs)) \<and>
                    200 \<le> st \<and> st \<le> 299 \<and> map_of fs ''sha'' = Some v \<and>
                 v \<noteq> JNull \<and> v \<noteq> JBool False \<and> v \<noteq> JNum 0 \<and> v \<noteq> JStr [])"
    unfolding a_read_def a_write_def by blast
  have "sha_field' = []"
    unfolding s' missing by simp
  with b' have create:
    "fst (snd (saveFile creating_env Map.empty 5 ''a'' ''text'' ''Update file''))
       = [a_read, a_write []]"
    by simp
  show ?thesis
    by (intro conjI) (rule tok(1) ne url(1) enc(1) found update missing create)+
qed

section \<open>Properties of parseFrontMatter\<close>

lemma find_sub_Some: "find_sub sep s = Some (a, b) \<Longrightarrow> s = a @ sep @ b"
proof (induction s arbitrary: a)
  case Nil
  then show ?case by (simp split: if_splits)
next
  case (Cons c cs)
  show ?case
  proof (cases "prefix sep (c # cs)")
    case True
    then obtain zs where zs: "c # cs = sep @ zs" by (auto simp: prefix_def)
    from True Cons.prems have "a = []" and "b = drop (length sep) (c # cs)" by simp_all
    with zs show ?thesis by simp
  next
    case False
    with Cons.prems obtain a' where "find_sub sep cs = Some (a', b)" and "a = c # a'"
      by (auto split: option.splits)
    with Cons.IH [of a'] show ?thesis by simp
  qed
qed

lemma find_sub_None: "find_sub sep s = None \<Longrightarrow> s \<noteq> a @ sep @ b"
proof (induction s arbitrary: a)
  case Nil
  then show ?case by (simp split: if_splits)
next
  case (Cons c cs)
  from Cons.prems have np: "\<not> prefix sep (c # cs)" and rec: "find_sub sep cs = None"
    by (auto split: if_splits option.splits)
  show ?case
  proof (cases a)
    case Nil
    with np show ?thesis by (auto simp: prefix_def)
  next
    case (Cons x a')
    with Cons.IH [OF rec, of a'] show ?thesis by auto
  qed
qed

lemma frontMatterRegex_None_iff:
  "frontMatterRegex s = None \<longleftrightarrow> \<not> (\<exists>yamlText rest. s = fm_open @ yamlText @ fm_close @ rest)"
proof (cases "startsWith s fm_open")
  case False
  then have "s \<noteq> fm_open @ t" for t by (auto simp: startsWith_def prefix_def)
  with False show ?thesis by (auto simp: frontMatterRegex_def)
next
  case True
  then obtain t where s: "s = fm_open @ t" by (auto simp: startsWith_def prefix_def)
  then have r: "frontMatterRegex s = find_sub fm_close t"
    using True by (simp add: frontMatterRegex_def)
  show ?thesis
  proof (cases "find_sub fm_close t")
    case None
    then have "t \<noteq> a @ fm_close @ b" for a b by (rule find_sub_None)
    with s r None show ?thesis by auto
  next
    case (Some ab)
    then obtain a b where "find_sub fm_close t = Some (a, b)" by (cases ab) auto
    then have "t = a @ fm_close @ b" by (rule find_sub_Some)
    with s r Some show ?thesis by auto
  qed
qed

text \<open>
  C9: a content string that does not begin with a recognized front-matter block (it is
  not \<^verbatim>\<open>---\n\<close>, a block, \<^verbatim>\<open>\n---\n\<close> and a rest) is passed through:
  \<open>parseFrontMatter\<close> returns no metadata and the whole input, unchanged, as the body.
\<close>

theorem parseFrontMatter_pass_through:
  assumes "\<not> (\<exists>yamlText rest. s = fm_open @ yamlText @ fm_close @ rest)"
  shows "parseFrontMatter s = \<lparr>fm_metadata = None, fm_content = s\<rparr>"
proof -
  from assms have "frontMatterRegex s = None" by (simp add: frontMatterRegex_None_iff)
  then show ?thesis by (simp add: parseFrontMatter_def)
qed

theorem parseFrontMatter_pass_through_witness:
  "\<not> (\<exists>yamlText rest. ''# Welcome'' @ [nl] @ ''Hi there'' = fm_open @ yamlText @ fm_close @ rest) \<and>
   parseFrontMatter (''# Welcome'' @ [nl] @ ''Hi there'')
     = \<lparr>fm_metadata = None, fm_content = ''# Welcome'' @ [nl] @ ''Hi there''\<rparr>"
proof -
  have h: "\<not> (\<exists>yamlText rest. ''# Welcome'' @ [nl] @ ''Hi there'' = fm_open @ yamlText @ fm_close @ rest)"
    by (simp add: fm_open_def)
  from h parseFrontMatter_pass_through [OF h] show ?thesis by (rule conjI)
qed

text \<open>Conversely, a text with such a block does get metadata, and the block is cut off.\<close>

lemma parseFrontMatter_block:
  assumes "s = fm_open @ yamlText @ fm_close @ rest"
  shows "fm_metadata (parseFrontMatter s) \<noteq> None"
proof -
  from assms have "frontMatterRegex s \<noteq> None"
    unfolding frontMatterRegex_None_iff by blast
  then show ?thesis by (auto simp: parseFrontMatter_def split: option.splits)
qed

text \<open>
  The result of a pass-through has no \<^verbatim>\<open>metadata\<close> field; what the callers read from it
  (\<^verbatim>\<open>metadata?.title\<close>, \<^verbatim>\<open>metadata && metadata.title\<close>) is what an empty metadata object
  gives.
\<close>

lemma title_of_no_metadata: "title_of None path cont = title_of (Some Map.empty) path cont"
  by (simp add: title_of_def)

section \<open>Properties of the crawl\<close>


lemma post_tokens_mono: "posted idx p t \<Longrightarrow> posted (fst (post_tokens d idx ts)) p t"
proof (induction ts arbitrary: idx)
  case Nil
  then show ?case by simp
next
  case (Cons t' ts)
  show ?case
  proof (cases "idx t'")
    case None
    show ?thesis
    proof (cases "inherited t'")
      case True
      with None Cons.prems show ?thesis by simp
    next
      case False
      from None Cons.prems have "t \<noteq> t'" by (auto simp: posted_def)
      with Cons.prems have p: "posted (idx(t' \<mapsto> [d])) p t" by (simp add: posted_def)
      have step: "post_tokens d idx (t' # ts) = post_tokens d (idx(t' \<mapsto> [d])) ts"
        using None False by simp
      show ?thesis unfolding step using p by (rule Cons.IH)
    qed
  next
    case (Some ds)
    show ?thesis
    proof (cases "list_ex (\<lambda>item. doc_path item = doc_path d) ds")
      case True
      with Some Cons.IH [OF Cons.prems] show ?thesis by simp
    next
      case False
      from Cons.prems Some have p: "posted (idx(t' \<mapsto> ds @ [d])) p t"
        by (auto simp: posted_def split: option.splits)
      have step: "post_tokens d idx (t' # ts) = post_tokens d (idx(t' \<mapsto> ds @ [d])) ts"
        using Some False by simp
      show ?thesis unfolding step using p by (rule Cons.IH)
    qed
  qed
qed

lemma post_tokens_posts:
  "t \<in> set (postable ts) \<Longrightarrow> posted (fst (post_tokens d idx ts)) (doc_path d) t"
proof (induction ts arbitrary: idx)
  case Nil
  then show ?case by (simp add: postable_def)
next
  case (Cons t' ts)
  from Cons.prems have ni: "\<not> inherited t'" and mem: "t = t' \<or> t \<in> set (postable ts)"
    by (auto simp: postable_def split: if_splits)
  define idx1 where "idx1 =
    (case idx t' of None \<Rightarrow> idx(t' \<mapsto> [d])
     | Some ds \<Rightarrow> if list_ex (\<lambda>item. doc_path item = doc_path d) ds then idx else idx(t' \<mapsto> ds @ [d]))"
  have step: "post_tokens d idx (t' # ts) = post_tokens d idx1 ts"
    using ni by (simp add: idx1_def split: option.splits)
  have here: "posted idx1 (doc_path d) t'"
    by (auto simp: idx1_def posted_def split: option.splits)
  from mem show ?case
  proof
    assume "t = t'"
    with here post_tokens_mono [of idx1 "doc_path d" t' d ts] step show ?thesis by simp
  next
    assume "t \<in> set (postable ts)"
    from Cons.IH [OF this, of idx1] step show ?thesis by simp
  qed
qed

lemma doc_path_make_doc: "doc_path (make_doc path cont) = path"
  by (simp add: make_doc_def Let_def)

lemma indexFile_index: "searchIndex st \<noteq> None \<Longrightarrow> searchIndex (indexFile app path st) \<noteq> None"
  by (auto simp: indexFile_def Let_def split: option.splits sum.splits prod.splits bool.splits)

lemma indexFile_fetch_fails: "cs_getFile cs path = Inl err \<Longrightarrow> indexFile (Some cs) path st = st"
  by (simp add: indexFile_def)

lemma indexFile_cases:
  "indexFile (Some cs) path st = st \<or>
   (path \<notin> indexedFiles st \<and> searchIndex st = None \<and>
      indexFile (Some cs) path st = st\<lparr>indexedFiles := insert path (indexedFiles st)\<rparr> \<and>
      file_tokens cs path = []) \<or>
   (\<exists>cont idx idx' b. path \<notin> indexedFiles st \<and> cs_getFile cs path = Inr (Some cont) \<and> cont \<noteq> [] \<and>
      searchIndex st = Some idx \<and>
      post_tokens (make_doc path cont) idx (file_tokens cs path) = (idx', b) \<and>
      indexFile (Some cs) path st =
        (if b then st\<lparr>searchIndex := Some idx', indexedFiles := insert path (indexedFiles st)\<rparr>
         else st\<lparr>searchIndex := Some idx'\<rparr>))"
  by (auto simp: indexFile_def file_tokens_def Let_def
      split: option.splits sum.splits prod.splits bool.splits)

lemma indexFile_mono: "keeps_postings st (indexFile (Some cs) path st)"
  unfolding keeps_postings_def
proof (intro allI impI)
  fix q t
  assume a: "st_posted st q t"
  then obtain idx where idx: "searchIndex st = Some idx" and p: "posted idx q t"
    by (auto simp: st_posted_def split: option.splits)
  from indexFile_cases [of cs path st]
  consider "indexFile (Some cs) path st = st"
    | cont idx' b where "post_tokens (make_doc path cont) idx (file_tokens cs path) = (idx', b)"
        "searchIndex (indexFile (Some cs) path st) = Some idx'"
    using idx by (auto split: if_splits)
  then show "st_posted (indexFile (Some cs) path st) q t"
  proof cases
    case 1
    with a show ?thesis by simp
  next
    case (2 cont idx' b)
    from post_tokens_mono [OF p, of "make_doc path cont" "file_tokens cs path"] 2(1)
    have "posted idx' q t" by simp
    with 2(2) show ?thesis by (simp add: st_posted_def)
  qed
qed

lemma indexFile_posts:
  assumes "index_inv cs st"
  shows "all_posted cs (indexFile (Some cs) path st) path"
proof (cases "path \<in> indexedFiles st")
  case True
  then have "indexFile (Some cs) path st = st" by (simp add: indexFile_def)
  with assms True show ?thesis by (simp add: index_inv_def)
next
  case False
  from assms obtain idx where idx: "searchIndex st = Some idx" by (auto simp: index_inv_def)
  show ?thesis
  proof (cases "file_tokens cs path = []")
    case True
    then show ?thesis by (simp add: all_posted_def postable_def)
  next
    case ne: False
    then obtain cont where cont: "cs_getFile cs path = Inr (Some cont)" "cont \<noteq> []"
      by (auto simp: file_tokens_def split: sum.splits option.splits if_splits)
    then have ft: "file_tokens cs path = tokenize (doc_content (make_doc path cont))"
      by (simp add: file_tokens_def)
    obtain idx' b where pt: "post_tokens (make_doc path cont) idx (file_tokens cs path) = (idx', b)"
      by (cases "post_tokens (make_doc path cont) idx (file_tokens cs path)")
    have si: "searchIndex (indexFile (Some cs) path st) = Some idx'"
      using False cont idx pt ft by (cases b) (simp_all add: indexFile_def Let_def)
    have "posted idx' path t" if "t \<in> set (postable (file_tokens cs path))" for t
      using post_tokens_posts [OF that, of "make_doc path cont" idx] pt
      by (simp add: doc_path_make_doc)
    with si show ?thesis by (simp add: all_posted_def st_posted_def)
  qed
qed

lemma indexFile_indexedFiles:
  "indexedFiles (indexFile (Some cs) path st) \<subseteq> insert path (indexedFiles st)"
  using indexFile_cases [of cs path st] by (auto split: if_splits)

lemma all_posted_mono: "keeps_postings st st' \<Longrightarrow> all_posted cs st p \<Longrightarrow> all_posted cs st' p"
  by (simp add: keeps_postings_def all_posted_def)

lemma keeps_postings_refl: "keeps_postings st st"
  by (simp add: keeps_postings_def)

lemma keeps_postings_trans:
  "keeps_postings st st1 \<Longrightarrow> keeps_postings st1 st2 \<Longrightarrow> keeps_postings st st2"
  by (simp add: keeps_postings_def)

lemma indexFile_inv:
  assumes "index_inv cs st"
  shows "index_inv cs (indexFile (Some cs) path st)"
proof -
  let ?st' = "indexFile (Some cs) path st"
  from assms have "searchIndex ?st' \<noteq> None" by (simp add: index_inv_def indexFile_index)
  moreover have "all_posted cs ?st' p" if "p \<in> indexedFiles ?st'" for p
  proof (cases "p = path")
    case True
    with indexFile_posts [OF assms] show ?thesis by simp
  next
    case False
    with that indexFile_indexedFiles [of cs path st] have "p \<in> indexedFiles st" by auto
    with assms have "all_posted cs st p" by (simp add: index_inv_def)
    then show ?thesis by (rule all_posted_mono [OF indexFile_mono])
  qed
  ultimately show ?thesis by (simp add: index_inv_def)
qed

lemma listed_under_cases:
  assumes "listed_under cs p g" and "cs_getDirectoryContents cs p = Inr items"
  shows "g \<in> set items \<or> (\<exists>d \<in> set items. is_subdir d \<and> listed_under cs (item_path d) g)"
  using assms by (cases rule: listed_under.cases) auto

text \<open>One step of the loop over the items of a listing.\<close>

lemma indexItems_reserved:
  "reserved it \<Longrightarrow> indexItems n app (it # rest) st = indexItems n app rest st"
  by (simp add: reserved_def)

lemma indexItems_subdir:
  "is_subdir it \<Longrightarrow>
   indexItems n app (it # rest) st =
     (case indexDirectory n app (item_path it) st of
        None \<Rightarrow> None
      | Some (Inl err, st') \<Rightarrow> Some (Inl err, st')
      | Some (Inr u, st') \<Rightarrow> indexItems n app rest st')"
  by (simp add: is_subdir_def reserved_def)

lemma indexItems_indexable:
  "indexable it \<Longrightarrow>
   indexItems n app (it # rest) st = indexItems n app rest (indexFile app (item_path it) st)"
  by (auto simp: indexable_def reserved_def)

lemma indexItems_other:
  "\<not> reserved it \<Longrightarrow> \<not> is_subdir it \<Longrightarrow> \<not> indexable it \<Longrightarrow>
   indexItems n app (it # rest) st = indexItems n app rest st"
  by (auto simp: indexable_def is_subdir_def reserved_def)

lemma indexable_not_subdir: "indexable it \<Longrightarrow> \<not> is_subdir it"
  by (auto simp: indexable_def is_subdir_def)

lemma indexItems_crawl:
  assumes dir: "\<And>p st r st'. index_inv cs st \<Longrightarrow> indexDirectory n (Some cs) p st = Some (r, st') \<Longrightarrow>
                  crawl_post cs st r st' (listed_under cs p)"
      and "index_inv cs st" and "indexItems n (Some cs) items st = Some (r, st')"
  shows "crawl_post cs st r st'
           (\<lambda>g. g \<in> set items \<or> (\<exists>d \<in> set items. is_subdir d \<and> listed_under cs (item_path d) g))"
  using assms(2,3)
proof (induction items arbitrary: st)
  case Nil
  then show ?case by (simp add: crawl_post_def keeps_postings_refl)
next
  case (Cons it rest)
  consider (res) "reserved it" | (sub) "is_subdir it" | (idx) "indexable it"
    | (oth) "\<not> reserved it" "\<not> is_subdir it" "\<not> indexable it"
    by blast
  then show ?case
  proof cases
    case res
    with Cons.prems have "indexItems n (Some cs) rest st = Some (r, st')"
      by (simp add: indexItems_reserved del: indexItems.simps)
    from Cons.IH [OF Cons.prems(1) this] res show ?thesis
      by (auto simp: crawl_post_def indexable_def is_subdir_def)
  next
    case sub
    from Cons.prems(2) sub obtain r1 st1 where
      d1: "indexDirectory n (Some cs) (item_path it) st = Some (r1, st1)"
      by (auto simp: indexItems_subdir simp del: indexItems.simps split: option.splits)
    from dir [OF Cons.prems(1) d1]
    have c1: "crawl_post cs st r1 st1 (listed_under cs (item_path it))" .
    show ?thesis
    proof (cases r1)
      case (Inl err)
      with Cons.prems(2) sub d1 have "r = Inl err" "st' = st1"
        by (simp_all add: indexItems_subdir del: indexItems.simps)
      with c1 show ?thesis by (simp add: crawl_post_def)
    next
      case (Inr u)
      with Cons.prems(2) sub d1 have rest: "indexItems n (Some cs) rest st1 = Some (r, st')"
        by (simp add: indexItems_subdir del: indexItems.simps)
      from c1 have inv1: "index_inv cs st1" by (simp add: crawl_post_def)
      from Cons.IH [OF inv1 rest]
      have c2: "crawl_post cs st1 r st'
        (\<lambda>g. g \<in> set rest \<or> (\<exists>d \<in> set rest. is_subdir d \<and> listed_under cs (item_path d) g))" .
      have k: "keeps_postings st st'"
        using c1 c2 by (auto simp: crawl_post_def intro: keeps_postings_trans)
      have "all_posted cs st' (item_path g)"
        if "r = Inr ()" "indexable g"
           "g \<in> set (it # rest) \<or> (\<exists>d \<in> set (it # rest). is_subdir d \<and> listed_under cs (item_path d) g)"
        for g
      proof -
        from that(2,3) sub indexable_not_subdir
        consider "listed_under cs (item_path it) g"
          | "g \<in> set rest \<or> (\<exists>d \<in> set rest. is_subdir d \<and> listed_under cs (item_path d) g)"
          by auto
        then show ?thesis
        proof cases
          case 1
          with c1 Inr that(2) have "all_posted cs st1 (item_path g)"
            by (cases u) (simp add: crawl_post_def)
          moreover from c2 have "keeps_postings st1 st'" by (simp add: crawl_post_def)
          ultimately show ?thesis by (rule all_posted_mono [rotated])
        next
          case 2
          with c2 that(1,2) show ?thesis by (simp add: crawl_post_def)
        qed
      qed
      with c2 k show ?thesis by (simp add: crawl_post_def)
    qed
  next
    case idx
    let ?st1 = "indexFile (Some cs) (item_path it) st"
    from Cons.prems(2) idx have rest: "indexItems n (Some cs) rest ?st1 = Some (r, st')"
      by (simp add: indexItems_indexable del: indexItems.simps)
    have inv1: "index_inv cs ?st1" using Cons.prems(1) by (rule indexFile_inv)
    from Cons.IH [OF inv1 rest]
    have c2: "crawl_post cs ?st1 r st'
      (\<lambda>g. g \<in> set rest \<or> (\<exists>d \<in> set rest. is_subdir d \<and> listed_under cs (item_path d) g))" .
    then have k1: "keeps_postings ?st1 st'" by (simp add: crawl_post_def)
    with indexFile_mono have k: "keeps_postings st st'" by (rule keeps_postings_trans)
    have "all_posted cs st' (item_path g)"
      if "r = Inr ()" "indexable g"
         "g \<in> set (it # rest) \<or> (\<exists>d \<in> set (it # rest). is_subdir d \<and> listed_under cs (item_path d) g)"
      for g
    proof -
      from that(3) idx indexable_not_subdir
      consider "g = it"
        | "g \<in> set rest \<or> (\<exists>d \<in> set rest. is_subdir d \<and> listed_under cs (item_path d) g)"
        by auto
      then show ?thesis
      proof cases
        case 1
        have "all_posted cs ?st1 (item_path it)" using Cons.prems(1) by (rule indexFile_posts)
        with k1 1 show ?thesis by (simp add: all_posted_mono)
      next
        case 2
        with c2 that(1,2) show ?thesis by (simp add: crawl_post_def)
      qed
    qed
    with c2 k show ?thesis by (simp add: crawl_post_def)
  next
    case oth
    with Cons.prems have "indexItems n (Some cs) rest st = Some (r, st')"
      by (simp add: indexItems_other del: indexItems.simps)
    from Cons.IH [OF Cons.prems(1) this] oth show ?thesis
      by (auto simp: crawl_post_def)
  qed
qed

lemma indexDirectory_crawl:
  assumes "index_inv cs st" and "indexDirectory n (Some cs) p st = Some (r, st')"
  shows "crawl_post cs st r st' (listed_under cs p)"
  using assms
proof (induction n arbitrary: p st r st')
  case 0
  then show ?case by simp
next
  case (Suc n)
  show ?case
  proof (cases "cs_getDirectoryContents cs p")
    case (Inl err)
    with Suc.prems have "r = Inl err" "st' = st" by simp_all
    with Suc.prems(1) show ?thesis by (simp add: crawl_post_def keeps_postings_refl)
  next
    case (Inr items)
    with Suc.prems have "indexItems n (Some cs) items st = Some (r, st')" by simp
    from indexItems_crawl [OF Suc.IH Suc.prems(1) this]
    have "crawl_post cs st r st'
      (\<lambda>g. g \<in> set items \<or> (\<exists>d \<in> set items. is_subdir d \<and> listed_under cs (item_path d) g))" .
    moreover have "g \<in> set items \<or> (\<exists>d \<in> set items. is_subdir d \<and> listed_under cs (item_path d) g)"
      if "listed_under cs p g" for g
      using that Inr by (rule listed_under_cases)
    ultimately show ?thesis by (simp add: crawl_post_def)
  qed
qed

text \<open>Totality of the crawl.\<close>

lemma indexItems_total:
  assumes dir: "\<And>p st. listings_ok n cs p \<Longrightarrow> \<exists>st'. indexDirectory n (Some cs) p st = Some (Inr (), st')"
      and "list_all (\<lambda>d. is_subdir d \<longrightarrow> listings_ok n cs (item_path d)) items"
  shows "\<exists>st'. indexItems n (Some cs) items st = Some (Inr (), st')"
  using assms(2)
proof (induction items arbitrary: st)
  case Nil
  then show ?case by simp
next
  case (Cons it rest)
  then have rest: "list_all (\<lambda>d. is_subdir d \<longrightarrow> listings_ok n cs (item_path d)) rest" by simp
  consider (res) "reserved it" | (sub) "is_subdir it" | (idx) "indexable it"
    | (oth) "\<not> reserved it" "\<not> is_subdir it" "\<not> indexable it"
    by blast
  then show ?case
  proof cases
    case res
    with Cons.IH [OF rest] show ?thesis by (simp add: indexItems_reserved del: indexItems.simps)
  next
    case sub
    with Cons.prems have "listings_ok n cs (item_path it)" by simp
    from dir [OF this] obtain st1 where
      "indexDirectory n (Some cs) (item_path it) st = Some (Inr (), st1)" by blast
    with sub Cons.IH [OF rest, of st1] show ?thesis by (simp add: indexItems_subdir del: indexItems.simps)
  next
    case idx
    with Cons.IH [OF rest] show ?thesis by (simp add: indexItems_indexable del: indexItems.simps)
  next
    case oth
    with Cons.IH [OF rest] show ?thesis by (simp add: indexItems_other del: indexItems.simps)
  qed
qed

lemma indexDirectory_total:
  "listings_ok n cs p \<Longrightarrow> \<exists>st'. indexDirectory n (Some cs) p st = Some (Inr (), st')"
proof (induction n arbitrary: p st)
  case 0
  then show ?case by simp
next
  case (Suc n)
  then obtain items where items: "cs_getDirectoryContents cs p = Inr items"
    and ok: "list_all (\<lambda>d. is_subdir d \<longrightarrow> listings_ok n cs (item_path d)) items"
    by (auto split: sum.splits)
  from indexItems_total [OF Suc.IH ok] items show ?case by simp
qed

text \<open>A file whose fetch fails counts as much as a file that is not listed.\<close>

lemma indexFile_without: "indexFile (Some (without f cs)) path st = indexFile (Some cs) path st"
  by (simp add: indexFile_def without_def)

lemma indexItems_without:
  assumes dir: "\<And>p st. indexDirectory n (Some (without f cs)) p st = indexDirectory n (Some cs) p st"
      and fails: "cs_getFile cs (item_path f) = Inl err" and isfile: "item_type f = ''file''"
  shows "indexItems n (Some (without f cs)) (filter (\<lambda>i. i \<noteq> f) items) st
           = indexItems n (Some cs) items st"
proof (induction items arbitrary: st)
  case Nil
  show ?case by simp
next
  case (Cons it rest)
  show ?case
  proof (cases "it = f")
    case True
    have "indexItems n (Some cs) (f # rest) st = indexItems n (Some cs) rest st"
      using fails isfile by (simp add: indexFile_fetch_fails)
    with True Cons.IH show ?thesis by simp
  next
    case False
    then show ?thesis
      by (simp add: Cons.IH dir indexFile_without split: option.splits sum.splits prod.splits)
  qed
qed

lemma indexDirectory_without:
  assumes "cs_getFile cs (item_path f) = Inl err" and "item_type f = ''file''"
  shows "indexDirectory n (Some (without f cs)) p st = indexDirectory n (Some cs) p st"
proof (induction n arbitrary: p st)
  case 0
  show ?case by simp
next
  case (Suc n)
  show ?case
  proof (cases "cs_getDirectoryContents cs p")
    case (Inl e)
    then show ?thesis by (simp add: without_def)
  next
    case (Inr items)
    then have "cs_getDirectoryContents (without f cs) p = Inr (filter (\<lambda>i. i \<noteq> f) items)"
      by (simp add: without_def)
    with Inr indexItems_without [OF Suc.IH assms] show ?thesis by simp
  qed
qed

text \<open>Whatever \<^verbatim>\<open>indexFile\<close> preserves, the crawl preserves.\<close>

lemma indexItems_preserves:
  assumes onfile: "\<And>path st. I st \<Longrightarrow> I (indexFile app path st)"
      and dir: "\<And>p st r st'. I st \<Longrightarrow> indexDirectory n app p st = Some (r, st') \<Longrightarrow> I st'"
      and "I st" and "indexItems n app items st = Some (r, st')"
  shows "I st'"
  using assms(3,4)
proof (induction items arbitrary: st)
  case Nil
  then show ?case by simp
next
  case (Cons it rest)
  consider (res) "reserved it" | (sub) "is_subdir it" | (idx) "indexable it"
    | (oth) "\<not> reserved it" "\<not> is_subdir it" "\<not> indexable it"
    by blast
  then show ?case
  proof cases
    case res
    with Cons show ?thesis by (simp add: indexItems_reserved del: indexItems.simps)
  next
    case sub
    from Cons.prems(2) sub obtain r1 st1 where
      d1: "indexDirectory n app (item_path it) st = Some (r1, st1)"
      by (auto simp: indexItems_subdir simp del: indexItems.simps split: option.splits)
    from dir [OF Cons.prems(1) d1] have i1: "I st1" .
    show ?thesis
    proof (cases r1)
      case (Inl err)
      with Cons.prems(2) sub d1 have "st' = st1"
        by (simp add: indexItems_subdir del: indexItems.simps)
      with i1 show ?thesis by simp
    next
      case (Inr u)
      with Cons.prems(2) sub d1 have "indexItems n app rest st1 = Some (r, st')"
        by (simp add: indexItems_subdir del: indexItems.simps)
      with Cons.IH i1 show ?thesis by blast
    qed
  next
    case idx
    with Cons.prems(2) have "indexItems n app rest (indexFile app (item_path it) st) = Some (r, st')"
      by (simp add: indexItems_indexable del: indexItems.simps)
    with Cons.IH onfile [OF Cons.prems(1)] show ?thesis by blast
  next
    case oth
    with Cons show ?thesis by (simp add: indexItems_other del: indexItems.simps)
  qed
qed

lemma indexDirectory_preserves:
  assumes onfile: "\<And>path st. I st \<Longrightarrow> I (indexFile app path st)"
      and "I st" and "indexDirectory n app p st = Some (r, st')"
  shows "I st'"
  using assms(2,3)
proof (induction n arbitrary: p st r st')
  case 0
  then show ?case by simp
next
  case (Suc n)
  show ?case
  proof (cases app)
    case None
    with Suc.prems show ?thesis by simp
  next
    case (Some cs)
    show ?thesis
    proof (cases "cs_getDirectoryContents cs p")
      case (Inl err)
      with Some Suc.prems show ?thesis by simp
    next
      case (Inr items)
      with Some Suc.prems have "indexItems n app items st = Some (r, st')" by simp
      show ?thesis
      proof (rule indexItems_preserves [where I = I and app = app and n = n and st = st])
        show "I (indexFile app path s)" if "I s" for path s using that by (rule onfile)
        show "I s'" if "I s" "indexDirectory n app q s = Some (r', s')" for q s r' s'
          using that by (rule Suc.IH)
        show "I st" by (rule Suc.prems(1))
        show "indexItems n app items st = Some (r, st')" by fact
      qed
    qed
  qed
qed

text \<open>The postings of a crawl come from the files it fetched.\<close>

lemma post_tokens_from:
  assumes "postings_from cs idx"
      and fetch: "cs_getFile cs (doc_path d) = Inr (Some cont)" "cont \<noteq> []"
        "d = make_doc (doc_path d) cont"
      and "set (postable ts) \<subseteq> set (postable (file_tokens cs (doc_path d)))"
  shows "postings_from cs (fst (post_tokens d idx ts))"
  using assms(1,5)
proof (induction ts arbitrary: idx)
  case Nil
  then show ?case by simp
next
  case (Cons t ts)
  from Cons.prems(1) have clean: "inherited t \<Longrightarrow> idx t = None"
    by (simp add: postings_from_def)
  have d: "\<exists>cont. cs_getFile cs (doc_path d) = Inr (Some cont) \<and> cont \<noteq> [] \<and>
             d = make_doc (doc_path d) cont"
    using fetch by blast
  show ?case
  proof (cases "inherited t")
    case True
    with clean have "idx t = None" by simp
    with True Cons.prems(1) show ?thesis by simp
  next
    case False
    with Cons.prems(2) have t: "t \<in> set (postable (file_tokens cs (doc_path d)))"
      and ts: "set (postable ts) \<subseteq> set (postable (file_tokens cs (doc_path d)))"
      by (simp_all add: postable_def)
    show ?thesis
    proof (cases "idx t")
      case None
      have p: "postings_from cs (idx(t \<mapsto> [d]))"
        using Cons.prems(1) t d False unfolding postings_from_def
        by (auto split: if_splits)
      have step: "post_tokens d idx (t # ts) = post_tokens d (idx(t \<mapsto> [d])) ts"
        using None False by simp
      show ?thesis unfolding step using p ts by (rule Cons.IH)
    next
      case (Some ds)
      show ?thesis
      proof (cases "list_ex (\<lambda>item. doc_path item = doc_path d) ds")
        case True
        with Some Cons.IH [OF Cons.prems(1) ts] show ?thesis by simp
      next
        case nex: False
        have p: "postings_from cs (idx(t \<mapsto> ds @ [d]))"
          using Cons.prems(1) t d False Some unfolding postings_from_def
          by (auto split: if_splits)
        have step: "post_tokens d idx (t # ts) = post_tokens d (idx(t \<mapsto> ds @ [d])) ts"
          using Some nex by simp
        show ?thesis unfolding step using p ts by (rule Cons.IH)
      qed
    qed
  qed
qed

lemma indexFile_from: "state_from cs st \<Longrightarrow> state_from cs (indexFile (Some cs) path st)"
proof -
  assume s: "state_from cs st"
  from indexFile_cases [of cs path st]
  consider "indexFile (Some cs) path st = st"
    | "searchIndex (indexFile (Some cs) path st) = searchIndex st"
    | cont idx idx' b where "cs_getFile cs path = Inr (Some cont)" "cont \<noteq> []"
        "searchIndex st = Some idx"
        "post_tokens (make_doc path cont) idx (file_tokens cs path) = (idx', b)"
        "searchIndex (indexFile (Some cs) path st) = Some idx'"
    by (auto split: if_splits)
  then show ?thesis
  proof cases
    case 1
    with s show ?thesis by simp
  next
    case 2
    with s show ?thesis by (simp add: state_from_def)
  next
    case (3 cont idx idx' b)
    let ?d = "make_doc path cont"
    have dp: "doc_path ?d = path" by (rule doc_path_make_doc)
    from s 3(3) have "postings_from cs idx" by (simp add: state_from_def)
    from post_tokens_from [OF this, of ?d cont "file_tokens cs path"] 3(1,2) 3(4)
    have "postings_from cs idx'" by (simp add: dp)
    with 3(5) show ?thesis by (simp add: state_from_def)
  qed
qed

lemma initSearchIndex_from:
  assumes "initSearchIndex n (Some cs) initial_state = Some st"
  shows "\<exists>idx. searchIndex st = Some idx \<and> postings_from cs idx"
proof -
  let ?st0 = "initial_state\<lparr>isIndexing := True, searchIndex := Some Map.empty\<rparr>"
  let ?I = "\<lambda>st. state_from cs st \<and> searchIndex st \<noteq> None"
  from assms obtain r st1 where run: "indexDirectory n (Some cs) [] ?st0 = Some (r, st1)"
    and st: "st = st1\<lparr>isIndexing := False\<rparr>"
    by (auto simp: initSearchIndex_def initial_state_def split: option.splits)
  have "?I st1"
  proof (rule indexDirectory_preserves [where I = ?I and app = "Some cs" and n = n and st = ?st0])
    show "?I ?st0" by (simp add: state_from_def postings_from_def)
    show "indexDirectory n (Some cs) [] ?st0 = Some (r, st1)" by (rule run)
    show "?I (indexFile (Some cs) path s)" if "?I s" for path s
      using that indexFile_from [of cs s path] indexFile_index [of s "Some cs" path] by blast
  qed
  with st show ?thesis by (auto simp: state_from_def)
qed

text \<open>
  So a crawl posts a file under postable tokens of its body only, and every document of
  the index is the document of the file at its path.
\<close>

lemma crawl_posts_only_postable:
  assumes "initSearchIndex n (Some cs) initial_state = Some st" and "st_posted st p t"
  shows "t \<in> set (postable (file_tokens cs p))"
proof -
  from initSearchIndex_from [OF assms(1)] obtain idx where
    idx: "searchIndex st = Some idx" and prov: "postings_from cs idx" by blast
  from assms(2) idx obtain ds d where "idx t = Some ds" "d \<in> set ds" "doc_path d = p"
    by (auto simp: st_posted_def posted_def list_ex_iff split: option.splits)
  with prov show ?thesis unfolding postings_from_def by blast
qed

lemma all_posted_isIndexing [simp]: "all_posted cs (st\<lparr>isIndexing := b\<rparr>) p = all_posted cs st p"
  by (simp add: all_posted_def st_posted_def)

lemma index_inv_start:
  "index_inv cs (initial_state\<lparr>isIndexing := True, searchIndex := Some Map.empty\<rparr>)"
  by (simp add: index_inv_def initial_state_def)

text \<open>
  What does hold of a crawl in which the fetch of a file throws.  A crawl all of whose
  directory listings succeed runs to its end, whatever the fetches of the files do.  When
  the fetch of a file \<open>f\<close> throws, the error is caught in \<^verbatim>\<open>indexFile\<close> and the crawl
  goes on: the state it ends in is the state of the crawl with \<open>f\<close> taken out of the
  listings, and in its index every other markdown file of the crawl is posted under the
  tokens of its body that come before the first name of a property of
  \<^verbatim>\<open>Object.prototype\<close>.
\<close>

lemma crawl_skips_failed_fetch:
  assumes tree: "listings_ok n cs []"
      and fails: "cs_getFile cs (item_path f) = Inl err"
      and isfile: "item_type f = ''file''"
  shows "\<exists>st'. initSearchIndex n (Some cs) initial_state = Some st' \<and>
               initSearchIndex n (Some (without f cs)) initial_state = Some st' \<and>
               searchIndex st' \<noteq> None \<and> \<not> isIndexing st' \<and>
               (\<forall>g. listed_under cs [] g \<and> indexable g \<longrightarrow> all_posted cs st' (item_path g))"
proof -
  let ?st0 = "initial_state\<lparr>isIndexing := True, searchIndex := Some Map.empty\<rparr>"
  from indexDirectory_total [OF tree, of ?st0] obtain st1 where
    run: "indexDirectory n (Some cs) [] ?st0 = Some (Inr (), st1)" by blast
  from indexDirectory_crawl [OF index_inv_start run]
  have post: "crawl_post cs ?st0 (Inr ()) st1 (listed_under cs [])" .
  have start: "searchIndex initial_state = None" "\<not> isIndexing initial_state"
    by (simp_all add: initial_state_def)
  have r1: "initSearchIndex n (Some cs) initial_state = Some (st1\<lparr>isIndexing := False\<rparr>)"
    using start run by (simp add: initSearchIndex_def)
  have r2: "initSearchIndex n (Some (without f cs)) initial_state = Some (st1\<lparr>isIndexing := False\<rparr>)"
    using start run indexDirectory_without [OF fails isfile, of n "[]" ?st0]
    by (simp add: initSearchIndex_def)
  from post have r3: "searchIndex (st1\<lparr>isIndexing := False\<rparr>) \<noteq> None"
    by (simp add: crawl_post_def index_inv_def)
  have r4: "\<not> isIndexing (st1\<lparr>isIndexing := False\<rparr>)" by simp
  from post
  have r5: "\<forall>g. listed_under cs [] g \<and> indexable g \<longrightarrow>
              all_posted cs (st1\<lparr>isIndexing := False\<rparr>) (item_path g)"
    by (simp add: crawl_post_def)
  from r1 r2 r3 r4 r5 show ?thesis by blast
qed

lemma crawl_skips_failed_fetch_example:
  "listings_ok 2 wiki_cs [] \<and>
   cs_getFile wiki_cs (item_path c_item) = Inl (ApiError 500) \<and>
   item_type c_item = ''file'' \<and>
   listed_under wiki_cs [] c_item \<and>
   (\<exists>st'. initSearchIndex 2 (Some wiki_cs) initial_state = Some st' \<and>
          st_posted st' ''a.md'' ''hello'' \<and> st_posted st' ''a.md'' ''world'' \<and>
          st_posted st' ''v1.0/b.md'' ''zebra'' \<and> st_posted st' ''v1.0/b.md'' ''hello'')"
proof -
  have tree: "listings_ok 2 wiki_cs []" by code_simp
  have fails: "cs_getFile wiki_cs (item_path c_item) = Inl (ApiError 500)" by code_simp
  have isfile: "item_type c_item = ''file''" by code_simp
  have root: "cs_getDirectoryContents wiki_cs [] = Inr [dir_item, c_item, a_item]"
    by (simp add: wiki_cs_def)
  have docs: "cs_getDirectoryContents wiki_cs (item_path dir_item) = Inr [b_item]"
    by (simp add: wiki_cs_def dir_item_def)
  have la: "listed_under wiki_cs [] a_item" by (rule listed_under.here [OF root]) simp
  have lc: "listed_under wiki_cs [] c_item" by (rule listed_under.here [OF root]) simp
  have sub: "is_subdir dir_item" by code_simp
  have indocs: "listed_under wiki_cs (item_path dir_item) b_item"
    by (rule listed_under.here [OF docs]) simp
  have inroot: "dir_item \<in> set [dir_item, c_item, a_item]" by simp
  have lb: "listed_under wiki_cs [] b_item"
    by (rule listed_under.below [OF root inroot sub indocs])
  have ia: "indexable a_item" and ib: "indexable b_item" by code_simp+
  have ta: "postable (file_tokens wiki_cs ''a.md'') = [''hello'', ''world'']"
    by code_simp
  have tb: "postable (file_tokens wiki_cs ''v1.0/b.md'') = [''zebra'', ''says'', ''hello'']"
    by code_simp
  have pa: "item_path a_item = ''a.md''" and pb: "item_path b_item = ''v1.0/b.md''"
    by (simp_all add: a_item_def b_item_def)
  from crawl_skips_failed_fetch [OF tree fails isfile] obtain st' where
    run: "initSearchIndex 2 (Some wiki_cs) initial_state = Some st'"
    and all: "\<And>g. listed_under wiki_cs [] g \<Longrightarrow> indexable g \<Longrightarrow> all_posted wiki_cs st' (item_path g)"
    by blast
  from all [OF la ia, unfolded pa]
  have "st_posted st' ''a.md'' ''hello''" "st_posted st' ''a.md'' ''world''"
    unfolding all_posted_def ta by simp_all
  moreover from all [OF lb ib, unfolded pb]
  have "st_posted st' ''v1.0/b.md'' ''zebra''" "st_posted st' ''v1.0/b.md'' ''hello''"
    unfolding all_posted_def tb by simp_all
  ultimately have "\<exists>st'. initSearchIndex 2 (Some wiki_cs) initial_state = Some st' \<and>
          st_posted st' ''a.md'' ''hello'' \<and> st_posted st' ''a.md'' ''world'' \<and>
          st_posted st' ''v1.0/b.md'' ''zebra'' \<and> st_posted st' ''v1.0/b.md'' ''hello''"
    using run by blast
  with tree fails isfile lc show ?thesis by (intro conjI)
qed

text \<open>
  C4 fails on a wiki with a page whose body begins with the name of a property of
  \<^verbatim>\<open>Object.prototype\<close>.  In the wiki above the crawl covers three markdown files; the
  fetch of exactly one, \<^verbatim>\<open>c.md\<close>, throws, and the crawl runs to its end.  The fetch of
  \<^verbatim>\<open>x.md\<close> succeeds, but the first token of its body is \<^verbatim>\<open>constructor\<close>:
  \<^verbatim>\<open>this.searchIndex[token]\<close> reads the inherited property, \<^verbatim>\<open>.some\<close> is no function of
  it, and the \<^verbatim>\<open>TypeError\<close> is caught with nothing posted.  So the index has entries for
  \<^verbatim>\<open>y.md\<close> alone: \<^verbatim>\<open>x.md\<close>, one of the two other files, is in no posting list, is not
  recorded as indexed, and no search finds it.
\<close>

theorem indexing_inherited_token_drops_file:
  "cs_getDirectoryContents ctor_cs [] = Inr [x_item, c_item, y_item] \<and>
   indexable x_item \<and> indexable c_item \<and> indexable y_item \<and>
   cs_getFile ctor_cs (item_path c_item) = Inl (ApiError 500) \<and>
   cs_getFile ctor_cs (item_path x_item) = Inr (Some x_text) \<and>
   cs_getFile ctor_cs (item_path y_item) = Inr (Some y_text) \<and>
   initSearchIndex 1 (Some ctor_cs) initial_state = Some ctor_state \<and>
   tokenize (doc_content (make_doc (item_path x_item) x_text))
     = [''constructor'', ''functions'', ''create'', ''objects''] \<and>
   (\<forall>t. \<not> st_posted ctor_state (item_path x_item) t) \<and>
   st_posted ctor_state (item_path y_item) ''zebras'' \<and>
   st_posted ctor_state (item_path y_item) ''have'' \<and>
   st_posted ctor_state (item_path y_item) ''stripes'' \<and>
   indexedFiles ctor_state = {''y.md''} \<and>
   searchInFiles ctor_state ''objects'' = Inr [] \<and>
   searchInFiles ctor_state ''functions'' = Inr []"
proof -
  have "initSearchIndex 1 (Some ctor_cs) initial_state \<noteq> None" by code_simp
  then have built: "initSearchIndex 1 (Some ctor_cs) initial_state = Some ctor_state"
    by (simp add: ctor_state_def)
  have none: "postable (file_tokens ctor_cs (item_path x_item)) = []" by code_simp
  have dropped: "\<not> st_posted ctor_state (item_path x_item) t" for t
    using crawl_posts_only_postable [OF built, of "item_path x_item" t] none by auto
  have listing: "cs_getDirectoryContents ctor_cs [] = Inr [x_item, c_item, y_item]"
    by (simp add: ctor_cs_def)
  have items: "indexable x_item" "indexable c_item" "indexable y_item" by code_simp+
  have fetches: "cs_getFile ctor_cs (item_path c_item) = Inl (ApiError 500)"
    "cs_getFile ctor_cs (item_path x_item) = Inr (Some x_text)"
    "cs_getFile ctor_cs (item_path y_item) = Inr (Some y_text)"
    by (simp_all add: ctor_cs_def c_item_def x_item_def y_item_def)
  have tokens: "tokenize (doc_content (make_doc (item_path x_item) x_text))
      = [''constructor'', ''functions'', ''create'', ''objects'']"
    by code_simp
  have kept: "st_posted ctor_state (item_path y_item) ''zebras''"
    "st_posted ctor_state (item_path y_item) ''have''"
    "st_posted ctor_state (item_path y_item) ''stripes''"
    by code_simp+
  have indexed: "indexedFiles ctor_state = {''y.md''}" by code_simp
  have search: "searchInFiles ctor_state ''objects'' = Inr []"
    "searchInFiles ctor_state ''functions'' = Inr []"
    by code_simp+
  show ?thesis
    by (intro conjI allI)
      (rule listing items fetches built tokens dropped kept indexed search)+
qed

section \<open>Properties of searchInFiles\<close>

text \<open>A token of a text occurs in its lower-case form.\<close>

lemma split_ws_words:
  "split_ws X \<noteq> [] \<and> prefix (hd (split_ws X)) X \<and>
   (\<forall>w \<in> set (split_ws X). sublist w X \<and> (\<forall>c \<in> set w. \<not> is_space c))"
proof (induction X rule: split_ws.induct)
  case 1
  show ?case by simp
next
  case (2 c cs)
  show ?case
  proof (cases "is_space c")
    case True
    let ?r = "dropWhile is_space cs"
    from True 2(1) have IH: "\<forall>w \<in> set (split_ws ?r). sublist w ?r \<and> (\<forall>c \<in> set w. \<not> is_space c)"
      by simp
    have "suffix ?r (c # cs)" by (simp add: suffix_dropWhile suffix_ConsI)
    then have "sublist w (c # cs)" if "sublist w ?r" for w
      using that by (meson sublist_order.order_trans suffix_imp_sublist)
    with IH True show ?thesis by auto
  next
    case False
    from False 2(2) have ne: "split_ws cs \<noteq> []" and pre: "prefix (hd (split_ws cs)) cs"
      and IH: "\<forall>w \<in> set (split_ws cs). sublist w cs \<and> (\<forall>c \<in> set w. \<not> is_space c)"
      by simp_all
    from ne obtain w0 ws where r: "split_ws cs = w0 # ws" by (cases "split_ws cs") auto
    with False have eq: "split_ws (c # cs) = (c # w0) # ws" by simp
    from pre r have p0: "prefix (c # w0) (c # cs)" by simp
    then have s0: "sublist (c # w0) (c # cs)" by (rule prefix_imp_sublist)
    from IH r have c0: "\<forall>x \<in> set w0. \<not> is_space x" by simp
    have "sublist w (c # cs)" if "w \<in> set ws" for w
      using IH r that by (auto intro: sublist_Cons_right [THEN iffD2])
    with eq p0 s0 c0 False IH r show ?thesis by auto
  qed
qed

lemma sublist_map_right:
  assumes "sublist w (map f Y)"
  shows "\<exists>y. sublist y Y \<and> w = map f y"
proof -
  from assms obtain ps ss where "map f Y = ps @ w @ ss" by (auto simp: sublist_def)
  then obtain a b c where "Y = a @ b @ c" "w = map f b"
    by (metis map_eq_append_conv)
  then show ?thesis by (auto simp: sublist_def)
qed

lemma replace_special_kept: "\<not> is_space (replace_special c) \<Longrightarrow> replace_special c = c"
proof -
  have sp: "is_space (CHR '' '')" by (simp add: is_space_def)
  assume "\<not> is_space (replace_special c)"
  with sp show ?thesis by (cases "\<not> is_word c \<and> \<not> is_space c") (simp_all add: replace_special_def)
qed

lemma map_replace_special_kept:
  "\<forall>c \<in> set (map replace_special y). \<not> is_space c \<Longrightarrow> map replace_special y = y"
proof (induction y)
  case Nil
  show ?case by simp
next
  case (Cons c y)
  from Cons.prems have "\<not> is_space (replace_special c)" by simp
  then have "replace_special c = c" by (rule replace_special_kept)
  moreover from Cons have "map replace_special y = y" by simp
  ultimately show ?case by simp
qed

lemma word_in_lower:
  assumes "w \<in> set (words_of s)"
  shows "w \<noteq> [] \<and> sublist w (toLowerCase s)"
proof -
  from assms have ne: "w \<noteq> []" and mem: "w \<in> set (split_ws (map replace_special (toLowerCase s)))"
    by (simp_all add: words_of_def)
  from split_ws_words [of "map replace_special (toLowerCase s)"] mem
  have sub: "sublist w (map replace_special (toLowerCase s))" and nsp: "\<forall>c \<in> set w. \<not> is_space c"
    by blast+
  from sublist_map_right [OF sub] obtain y where
    y: "sublist y (toLowerCase s)" and wy: "w = map replace_special y" by blast
  from nsp have "\<forall>c \<in> set (map replace_special y). \<not> is_space c" unfolding wy .
  then have "map replace_special y = y" by (rule map_replace_special_kept)
  with y wy ne show ?thesis by simp
qed

lemma count_matches_sublist:
  assumes "sublist t u" and "t \<noteq> []"
  shows "1 \<le> count_matches t u"
  using assms
proof (induction u)
  case Nil
  then show ?case by simp
next
  case (Cons c cs)
  show ?case
  proof (cases "prefix t (c # cs)")
    case True
    then show ?thesis by simp
  next
    case False
    with Cons.prems(1) have "sublist t cs" by (simp add: sublist_Cons_right)
    with Cons.IH Cons.prems(2) False show ?thesis by simp
  qed
qed

lemma set_uniq [simp]: "set (uniq xs) = set xs"
  by (simp add: uniq_def)

lemma token_occurs:
  "t \<in> set (tokenize s) \<Longrightarrow> 1 \<le> count_matches t (toLowerCase s)"
  using word_in_lower [of t s] count_matches_sublist [of t "toLowerCase s"]
  by (simp add: tokenize_def)

text \<open>
  A query term or token consists of word characters only, so as a regular expression it
  matches itself and nothing else.
\<close>

lemma replace_special_word_or_space: "is_word (replace_special c) \<or> is_space (replace_special c)"
proof (cases "\<not> is_word c \<and> \<not> is_space c")
  case True
  have "is_space (CHR '' '')" by (simp add: is_space_def)
  with True show ?thesis by (simp add: replace_special_def)
next
  case False
  then show ?thesis by (auto simp: replace_special_def)
qed

lemma words_of_word_chars:
  assumes "w \<in> set (words_of s)" and "c \<in> set w"
  shows "is_word c"
proof -
  let ?X = "map replace_special (toLowerCase s)"
  from assms(1) have "w \<in> set (split_ws ?X)" by (simp add: words_of_def)
  with split_ws_words [of ?X] have sub: "sublist w ?X" and nsp: "\<forall>c \<in> set w. \<not> is_space c"
    by blast+
  from sub have "set w \<subseteq> set ?X" by (rule set_mono_sublist)
  with assms(2) obtain c0 where "c = replace_special c0" by auto
  with replace_special_word_or_space [of c0] nsp assms(2) show ?thesis by auto
qed

text \<open>The invariant of the postings.\<close>

lemma post_tokens_sound:
  assumes "postings_sound idx" and "set ts \<subseteq> set (tokenize (doc_content d))"
  shows "postings_sound (fst (post_tokens d idx ts))"
  using assms
proof (induction ts arbitrary: idx)
  case Nil
  then show ?case by simp
next
  case (Cons t ts)
  from Cons.prems(2) have t: "t \<in> set (tokenize (doc_content d))"
    and ts: "set ts \<subseteq> set (tokenize (doc_content d))" by simp_all
  show ?case
  proof (cases "idx t")
    case None
    show ?thesis
    proof (cases "inherited t")
      case True
      with None Cons.prems(1) show ?thesis by simp
    next
      case False
      have p: "postings_sound (idx(t \<mapsto> [d]))"
        using Cons.prems(1) t by (auto simp: postings_sound_def)
      have step: "post_tokens d idx (t # ts) = post_tokens d (idx(t \<mapsto> [d])) ts"
        using None False by simp
      show ?thesis unfolding step using p ts by (rule Cons.IH)
    qed
  next
    case (Some ds)
    show ?thesis
    proof (cases "list_ex (\<lambda>item. doc_path item = doc_path d) ds")
      case True
      with Some Cons.IH [OF Cons.prems(1) ts] show ?thesis by simp
    next
      case False
      then have "doc_path d \<notin> doc_path ` set ds" by (auto simp: list_ex_iff)
      with Cons.prems(1) Some t have p: "postings_sound (idx(t \<mapsto> ds @ [d]))"
        by (auto simp: postings_sound_def)
      have step: "post_tokens d idx (t # ts) = post_tokens d (idx(t \<mapsto> ds @ [d])) ts"
        using Some False by simp
      show ?thesis unfolding step using p ts by (rule Cons.IH)
    qed
  qed
qed

lemma indexFile_sound: "state_sound st \<Longrightarrow> state_sound (indexFile app path st)"
proof (cases app)
  case None
  assume "state_sound st"
  with None show ?thesis by (simp add: indexFile_def)
next
  case (Some cs)
  assume s: "state_sound st"
  from indexFile_cases [of cs path st]
  consider "indexFile (Some cs) path st = st"
    | "searchIndex (indexFile (Some cs) path st) = searchIndex st"
    | cont idx idx' b where "cs_getFile cs path = Inr (Some cont)" "cont \<noteq> []"
        "searchIndex st = Some idx"
        "post_tokens (make_doc path cont) idx (file_tokens cs path) = (idx', b)"
        "searchIndex (indexFile (Some cs) path st) = Some idx'"
    by (auto split: if_splits)
  then show ?thesis
  proof cases
    case 1
    with s Some show ?thesis by simp
  next
    case 2
    with s Some show ?thesis by (simp add: state_sound_def)
  next
    case (3 cont idx idx' b)
    from 3(1,2) have ft: "file_tokens cs path = tokenize (doc_content (make_doc path cont))"
      by (simp add: file_tokens_def)
    from s 3(3) have "postings_sound idx" by (simp add: state_sound_def)
    from post_tokens_sound [OF this, of "file_tokens cs path" "make_doc path cont"] ft 3(4)
    have "postings_sound idx'" by simp
    with 3(5) Some show ?thesis by (simp add: state_sound_def)
  qed
qed

lemma initSearchIndex_sound:
  assumes "initSearchIndex n app initial_state = Some st"
  shows "\<exists>idx. searchIndex st = Some idx \<and> postings_sound idx"
proof -
  let ?st0 = "initial_state\<lparr>isIndexing := True, searchIndex := Some Map.empty\<rparr>"
  let ?I = "\<lambda>st. state_sound st \<and> searchIndex st \<noteq> None"
  from assms obtain r st1 where run: "indexDirectory n app [] ?st0 = Some (r, st1)"
    and st: "st = st1\<lparr>isIndexing := False\<rparr>"
    by (auto simp: initSearchIndex_def initial_state_def split: option.splits)
  have "?I st1"
  proof (rule indexDirectory_preserves [where I = ?I and app = app and n = n and st = ?st0])
    show "?I ?st0" by (simp add: state_sound_def postings_sound_def)
    show "indexDirectory n app [] ?st0 = Some (r, st1)" by (rule run)
    show "?I (indexFile app path s)" if "?I s" for path s
      using that indexFile_sound [of s app path] indexFile_index [of s app path] by blast
  qed
  with st show ?thesis by (auto simp: state_sound_def)
qed

text \<open>The accumulation of the scores.\<close>

lemma doc_score_Inr: "doc_score term d = Inr s \<Longrightarrow> s = occurrences_score term d"
  by (cases "doc_title d") (auto simp: doc_score_def occurrences_score_def Let_def)

lemma score_at_add_score:
  "score_at (add_score q s m) p = score_at m p + (if p = q then s else 0)"
  by (simp add: score_at_def add_score_def)

lemma score_docs_ok:
  assumes "score_docs term ds acc = Inr acc'"
  shows "score_at (fst acc') p =
           score_at (fst acc) p + sum_list (map (occurrences_score term) (filter (\<lambda>d. doc_path d = p) ds)) \<and>
         set (map fst (snd acc')) = set (map fst (snd acc)) \<union> doc_path ` set ds \<and>
         (distinct (map fst (snd acc)) \<longrightarrow> distinct (map fst (snd acc')))"
  using assms
proof (induction ds arbitrary: acc)
  case Nil
  then show ?case by simp
next
  case (Cons d ds)
  from Cons.prems obtain s where s: "doc_score term d = Inr s"
    by (cases "doc_score term d") auto
  define acc1 where "acc1 =
    (add_score (doc_path d) s (fst acc),
     if map_of (snd acc) (doc_path d) = None then snd acc @ [(doc_path d, d)] else snd acc)"
  from Cons.prems s have rest: "score_docs term ds acc1 = Inr acc'" by (simp add: acc1_def)
  note IH = Cons.IH [OF rest]
  have s': "s = occurrences_score term d" using s by (rule doc_score_Inr)
  have a1: "score_at (fst acc1) p = score_at (fst acc) p + (if p = doc_path d then s else 0)"
    by (simp add: acc1_def score_at_add_score)
  have a2: "set (map fst (snd acc1)) = insert (doc_path d) (set (map fst (snd acc)))"
    by (auto simp: acc1_def map_of_eq_None_iff)
  have a3: "distinct (map fst (snd acc)) \<Longrightarrow> distinct (map fst (snd acc1))"
    by (auto simp: acc1_def map_of_eq_None_iff)
  from IH a1 s' have "score_at (fst acc') p =
      score_at (fst acc) p +
      sum_list (map (occurrences_score term) (filter (\<lambda>d. doc_path d = p) (d # ds)))"
    by auto
  moreover from IH a2
  have "set (map fst (snd acc')) = set (map fst (snd acc)) \<union> doc_path ` set (d # ds)" by auto
  moreover from IH a3
  have "distinct (map fst (snd acc)) \<longrightarrow> distinct (map fst (snd acc'))" by blast
  ultimately show ?case by blast
qed

lemma matches_of_paths:
  "{p. matches_of idx p term \<noteq> []} = doc_path ` set (case idx term of None \<Rightarrow> [] | Some ds \<Rightarrow> ds)"
  by (auto simp: matches_of_def filter_empty_conv)

lemma score_terms_ok:
  assumes "score_terms idx terms acc = Inr acc'"
  shows "score_at (fst acc') p =
           score_at (fst acc) p +
           sum_list (map (\<lambda>t. sum_list (map (occurrences_score t) (matches_of idx p t))) terms) \<and>
         set (map fst (snd acc')) =
           set (map fst (snd acc)) \<union> {p. \<exists>term \<in> set terms. matches_of idx p term \<noteq> []} \<and>
         (distinct (map fst (snd acc)) \<longrightarrow> distinct (map fst (snd acc')))"
  using assms
proof (induction terms arbitrary: acc)
  case Nil
  then show ?case by simp
next
  case (Cons tm terms)
  show ?case
  proof (cases "idx tm")
    case None
    with Cons.prems have rest: "score_terms idx terms acc = Inr acc'"
      by (simp split: if_splits)
    from None have "matches_of idx q tm = []" for q by (simp add: matches_of_def)
    with Cons.IH [OF rest] show ?thesis by simp
  next
    case (Some ds)
    with Cons.prems obtain acc1 where d: "score_docs tm ds acc = Inr acc1"
      and rest: "score_terms idx terms acc1 = Inr acc'"
      by (cases "score_docs tm ds acc") auto
    note D = score_docs_ok [OF d, of p]
    note IH = Cons.IH [OF rest]
    from Some have m: "matches_of idx q tm = filter (\<lambda>d. doc_path d = q) ds" for q
      by (simp add: matches_of_def)
    from Some have ps: "{q. matches_of idx q tm \<noteq> []} = doc_path ` set ds"
      by (simp add: matches_of_paths)
    from D IH m have "score_at (fst acc') p =
        score_at (fst acc) p +
        sum_list (map (\<lambda>t. sum_list (map (occurrences_score t) (matches_of idx p t))) (tm # terms))"
      by simp
    moreover from D IH ps
    have "set (map fst (snd acc')) =
            set (map fst (snd acc)) \<union> {p. \<exists>t \<in> set (tm # terms). matches_of idx p t \<noteq> []}"
      by auto
    moreover from D IH
    have "distinct (map fst (snd acc)) \<longrightarrow> distinct (map fst (snd acc'))" by blast
    ultimately show ?thesis by blast
  qed
qed

lemma searchInFiles_cases:
  assumes "searchIndex st = Some idx" and "searchInFiles st query = Inr rs"
  shows "(words_of query = [] \<and> rs = []) \<or>
         (\<exists>docScores termResults.
            score_terms idx (words_of query) (Map.empty, []) = Inr (docScores, termResults) \<and>
            rs = sort_key (\<lambda>r. - int (res_score r))
                   (map (make_result (words_of query) docScores) termResults))"
  using assms
  by (auto simp: searchInFiles_def Let_def split: if_splits sum.splits prod.splits)

lemma filter_distinct_key:
  "distinct (map f xs) \<Longrightarrow> length (filter (\<lambda>x. f x = k) xs) \<le> 1"
proof (induction xs)
  case Nil
  show ?case by simp
next
  case (Cons a xs)
  then have IH: "length (filter (\<lambda>x. f x = k) xs) \<le> 1" and new: "f a \<notin> f ` set xs" by simp_all
  show ?case
  proof (cases "f a = k")
    case True
    have "f x \<noteq> k" if "x \<in> set xs" for x
      using that new True by (metis image_eqI)
    then have "filter (\<lambda>x. f x = k) xs = []" by (simp add: filter_empty_conv)
    with True show ?thesis by simp
  next
    case False
    with IH show ?thesis by simp
  qed
qed

lemma sorted_desc_rank:
  assumes "sorted (map (\<lambda>r. - int (res_score r)) rs)"
      and "i < length rs" "j < length rs" "res_score (rs ! j) < res_score (rs ! i)"
  shows "i < j"
proof (rule ccontr)
  assume "\<not> i < j"
  then have "j \<le> i" by simp
  with assms(1,2) have "map (\<lambda>r. - int (res_score r)) rs ! j \<le> map (\<lambda>r. - int (res_score r)) rs ! i"
    by (intro sorted_nth_mono) simp_all
  with assms(2,3) have "res_score (rs ! i) \<le> res_score (rs ! j)" by simp
  with assms(4) show False by simp
qed

lemma searchInFiles_results:
  assumes idx: "searchIndex st = Some idx" and found: "searchInFiles st query = Inr rs"
  shows "(\<forall>r \<in> set rs.
            res_score r =
              sum_list (map (\<lambda>t. sum_list (map (occurrences_score t) (matches_of idx (res_path r) t)))
                         (words_of query))) \<and>
         (\<forall>p. p \<in> res_path ` set rs \<longleftrightarrow> (\<exists>t \<in> set (words_of query). matches_of idx p t \<noteq> [])) \<and>
         distinct (map res_path rs) \<and>
         sorted (map (\<lambda>r. - int (res_score r)) rs)"
proof -
  from searchInFiles_cases [OF idx found]
  consider (none) "words_of query = []" "rs = []"
    | (some) docScores termResults where
        "score_terms idx (words_of query) (Map.empty, []) = Inr (docScores, termResults)"
        "rs = sort_key (\<lambda>r. - int (res_score r))
                (map (make_result (words_of query) docScores) termResults)"
    by blast
  then show ?thesis
  proof cases
    case none
    then show ?thesis by simp
  next
    case (some docScores termResults)
    let ?qt = "words_of query"
    let ?mk = "make_result ?qt docScores"
    note T = score_terms_ok [OF some(1)]
    have sc: "score_at docScores p =
        sum_list (map (\<lambda>t. sum_list (map (occurrences_score t) (matches_of idx p t))) ?qt)" for p
      using T [of p] by (simp add: score_at_def)
    have paths: "set (map fst termResults) = {p. \<exists>t \<in> set ?qt. matches_of idx p t \<noteq> []}"
      using T [of "[]"] by simp
    have dist: "distinct (map fst termResults)" using T [of "[]"] by simp
    have rp: "res_path (?mk pd) = fst pd" and rs: "res_score (?mk pd) = score_at docScores (fst pd)"
      for pd by (simp_all add: make_result_def score_at_def)
    have set_rs: "set rs = ?mk ` set termResults" by (simp add: some(2))
    have "res_score r =
        sum_list (map (\<lambda>t. sum_list (map (occurrences_score t) (matches_of idx (res_path r) t))) ?qt)"
      if "r \<in> set rs" for r
      using that set_rs rp rs sc by auto
    moreover have "p \<in> res_path ` set rs \<longleftrightarrow> (\<exists>t \<in> set ?qt. matches_of idx p t \<noteq> [])" for p
    proof -
      have "res_path ` set rs = fst ` set termResults"
        unfolding set_rs by (simp add: image_image rp)
      with paths show ?thesis by auto
    qed
    moreover have "distinct (map res_path rs)"
    proof -
      have "map res_path (map ?mk termResults) = map fst termResults"
        by (simp add: rp comp_def)
      with dist have d: "distinct (map res_path (map ?mk termResults))" by (simp only:)
      from d
      have "distinct (map ?mk termResults)" and "inj_on res_path (set (map ?mk termResults))"
        by (simp_all only: distinct_map [of res_path "map ?mk termResults"])
      then have "distinct rs" and "inj_on res_path (set rs)"
        unfolding some(2) by simp_all
      then show ?thesis unfolding distinct_map by blast
    qed
    moreover have "sorted (map (\<lambda>r. - int (res_score r)) rs)"
      unfolding some(2) by (rule sorted_sort_key)
    ultimately show ?thesis by blast
  qed
qed

text \<open>
  When \<^verbatim>\<open>searchInFiles\<close> returns: no query term is the name of an inherited property
  (unless the index has it as a key of its own), and the title of every document is a string.
\<close>

lemma score_docs_returns:
  assumes "\<forall>d \<in> set ds. \<exists>s. doc_title d = FStr s"
  shows "\<exists>acc'. score_docs tm ds acc = Inr acc'"
  using assms
proof (induction ds arbitrary: acc)
  case Nil
  show ?case by simp
next
  case (Cons d ds)
  then obtain s where "doc_title d = FStr s" by auto
  then obtain sc where "doc_score tm d = Inr sc" by (simp add: doc_score_def Let_def)
  with Cons show ?case by simp
qed

lemma score_terms_returns:
  assumes "\<forall>t \<in> set terms. idx t \<noteq> None \<or> \<not> inherited t"
      and "\<forall>t ds. idx t = Some ds \<longrightarrow> (\<forall>d \<in> set ds. \<exists>s. doc_title d = FStr s)"
  shows "\<exists>acc'. score_terms idx terms acc = Inr acc'"
  using assms(1)
proof (induction terms arbitrary: acc)
  case Nil
  show ?case by simp
next
  case (Cons tm terms)
  then have rest: "\<forall>t \<in> set terms. idx t \<noteq> None \<or> \<not> inherited t" by simp
  show ?case
  proof (cases "idx tm")
    case None
    with Cons.prems have "\<not> inherited tm" by simp
    with None Cons.IH [OF rest] show ?thesis by simp
  next
    case (Some ds)
    with assms(2) have "\<forall>d \<in> set ds. \<exists>s. doc_title d = FStr s" by blast
    from score_docs_returns [OF this, of tm acc] obtain acc1 where
      "score_docs tm ds acc = Inr acc1" by blast
    with Some Cons.IH [OF rest, of acc1] show ?thesis by simp
  qed
qed

lemma searchInFiles_returns:
  assumes "searchIndex st = Some idx"
      and "\<forall>t \<in> set (words_of query). idx t \<noteq> None \<or> \<not> inherited t"
      and "\<forall>t ds. idx t = Some ds \<longrightarrow> (\<forall>d \<in> set ds. \<exists>s. doc_title d = FStr s)"
  shows "\<exists>rs. searchInFiles st query = Inr rs"
proof -
  from score_terms_returns [OF assms(2,3), of "(Map.empty, [])"] obtain acc' where
    "score_terms idx (words_of query) (Map.empty, []) = Inr acc'" by blast
  with assms(1) show ?thesis
    by (cases acc') (simp add: searchInFiles_def Let_def)
qed

text \<open>
  A query term that occurs in a document only as part of a longer word adds nothing to its
  score, and a query term that names an inherited property makes the search raise.
\<close>

lemma search_partial_word_not_counted:
  "words_of ''hello zeb'' = [''hello'', ''zeb''] \<and>
   count_matches ''zeb'' (toLowerCase ''A zebra says hello'') = 1 \<and>
   map_sum id (map (\<lambda>r. (res_path r, res_score r))) (searchInFiles wiki_state ''hello zeb'')
     = Inr [(''a.md'', 4), (''v1.0/b.md'', 1)]"
  by code_simp

lemma search_inherited_name_raises:
  "searchInFiles wiki_state ''the constructor'' = Inl TypeError"
  by code_simp

text \<open>
  C3, as stated, fails in its consequence.  In the wiki above, \<^verbatim>\<open>a.md\<close> has the term
  \<^verbatim>\<open>zebra\<close> once in its title and not in its body, and \<^verbatim>\<open>v1.0/b.md\<close> has it once in its
  body and not in its title.  The index posts a document under the tokens of its body only,
  so the query \<^verbatim>\<open>zebra\<close> returns \<^verbatim>\<open>v1.0/b.md\<close> alone: \<^verbatim>\<open>a.md\<close> does not rank above
  it, it is not ranked at all.
\<close>

theorem search_title_only_counterexample:
  "initSearchIndex 2 (Some wiki_cs) initial_state \<noteq> None \<and>
   cs_getFile wiki_cs ''a.md'' = Inr (Some a_text) \<and>
   doc_title (make_doc ''a.md'' a_text) = FStr ''Hello Zebra'' \<and>
   doc_content (make_doc ''a.md'' a_text) = ''Hello world'' \<and>
   count_matches ''zebra'' (toLowerCase ''Hello Zebra'') = 1 \<and>
   count_matches ''zebra'' (toLowerCase ''Hello world'') = 0 \<and>
   cs_getFile wiki_cs ''v1.0/b.md'' = Inr (Some b_text) \<and>
   doc_title (make_doc ''v1.0/b.md'' b_text) = FStr ''B'' \<and>
   doc_content (make_doc ''v1.0/b.md'' b_text) = ''A zebra says hello'' \<and>
   count_matches ''zebra'' (toLowerCase ''B'') = 0 \<and>
   count_matches ''zebra'' (toLowerCase ''A zebra says hello'') = 1 \<and>
   words_of ''zebra'' = [''zebra''] \<and>
   map_sum id (map (\<lambda>r. (res_path r, res_score r))) (searchInFiles wiki_state ''zebra'')
     = Inr [(''v1.0/b.md'', 1)]"
  by code_simp

text \<open>
  C3 (amended): for an index built by the crawl (over listings whose paths end with the
  names of their items) and a query on which \<^verbatim>\<open>searchInFiles\<close> returns:
  a posting list holds one document per path at most; a document it holds is the document
  of the file fetched at that path, and the term of the list is a token of its body, so it
  occurs in the body at least once; the score of every returned document is the sum, over
  the query terms whose posting list holds it, of its occurrences in the body plus three
  times its occurrences in the title, counted without overlap in the lower-case text; the
  documents returned are exactly those held by the posting list of some query term, each
  once; and of two returned documents the one with the strictly higher score ranks
  strictly above.  So for a query of a single term: every returned document is a fetched
  file with the term among the tokens of its body, its score is its body count plus three
  times its title count, and at least 1; and a file whose body does not have the term among
  its tokens, such as one that has it in its title only, is not returned.
\<close>

theorem search_scoring:
  assumes api: "paths_end_with_names cs"
      and built: "initSearchIndex n (Some cs) initial_state = Some st"
      and found: "searchInFiles st query = Inr rs"
  shows "\<exists>idx. searchIndex st = Some idx \<and>
           (\<forall>p t. length (matches_of idx p t) \<le> 1 \<and>
                  (\<forall>d \<in> set (matches_of idx p t).
                     (\<exists>cont. cs_getFile cs p = Inr (Some cont) \<and> d = make_doc p cont) \<and>
                     t \<in> set (tokenize (doc_content d)) \<and>
                     1 \<le> count_matches t (toLowerCase (doc_content d)))) \<and>
           (\<forall>r \<in> set rs.
              res_score r =
                sum_list (map (\<lambda>t. sum_list (map (occurrences_score t) (matches_of idx (res_path r) t)))
                           (words_of query))) \<and>
           (\<forall>p. p \<in> res_path ` set rs \<longleftrightarrow> (\<exists>t \<in> set (words_of query). matches_of idx p t \<noteq> [])) \<and>
           distinct (map res_path rs) \<and>
           (\<forall>i j. i < length rs \<and> j < length rs \<and> res_score (rs ! j) < res_score (rs ! i) \<longrightarrow> i < j) \<and>
           (\<forall>t. words_of query = [t] \<longrightarrow>
              (\<forall>r \<in> set rs.
                 \<exists>cont. cs_getFile cs (res_path r) = Inr (Some cont) \<and>
                   t \<in> set (tokenize (doc_content (make_doc (res_path r) cont))) \<and>
                   res_score r = occurrences_score t (make_doc (res_path r) cont) \<and>
                   1 \<le> res_score r) \<and>
              (\<forall>p cont. cs_getFile cs p = Inr (Some cont) \<and>
                   t \<notin> set (tokenize (doc_content (make_doc p cont))) \<longrightarrow>
                   p \<notin> res_path ` set rs))"
proof -
  from initSearchIndex_sound [OF built] obtain idx where
    idx: "searchIndex st = Some idx" and sound: "postings_sound idx" by blast
  from initSearchIndex_from [OF built] idx have prov: "postings_from cs idx" by auto
  have A: "length (matches_of idx p t) \<le> 1 \<and>
           (\<forall>d \<in> set (matches_of idx p t).
              (\<exists>cont. cs_getFile cs p = Inr (Some cont) \<and> d = make_doc p cont) \<and>
              t \<in> set (tokenize (doc_content d)) \<and>
              1 \<le> count_matches t (toLowerCase (doc_content d)))" for p t
  proof (cases "idx t")
    case None
    then show ?thesis by (simp add: matches_of_def)
  next
    case (Some ds)
    with sound have d: "distinct (map doc_path ds)"
      and tok: "\<forall>d \<in> set ds. t \<in> set (tokenize (doc_content d))"
      by (auto simp: postings_sound_def)
    from d have one: "length (filter (\<lambda>d. doc_path d = p) ds) \<le> 1" by (rule filter_distinct_key)
    from tok have cnt: "\<forall>d \<in> set ds. 1 \<le> count_matches t (toLowerCase (doc_content d))"
      by (metis token_occurs)
    have fetched: "\<exists>cont. cs_getFile cs p = Inr (Some cont) \<and> d = make_doc p cont"
      if "d \<in> set ds" "doc_path d = p" for d
    proof -
      from prov Some that(1)
      have "\<exists>cont. cs_getFile cs (doc_path d) = Inr (Some cont) \<and> cont \<noteq> [] \<and>
              d = make_doc (doc_path d) cont"
        unfolding postings_from_def by blast
      with that(2) show ?thesis by auto
    qed
    from one tok cnt fetched Some show ?thesis by (simp add: matches_of_def)
  qed
  note R = searchInFiles_results [OF idx found]
  from R have B: "\<forall>r \<in> set rs.
      res_score r =
        sum_list (map (\<lambda>t. sum_list (map (occurrences_score t) (matches_of idx (res_path r) t)))
                   (words_of query))"
    by blast
  from R have C: "\<forall>p. p \<in> res_path ` set rs \<longleftrightarrow>
      (\<exists>t \<in> set (words_of query). matches_of idx p t \<noteq> [])"
    by blast
  from R have dist: "distinct (map res_path rs)" by blast
  from R have srt: "sorted (map (\<lambda>r. - int (res_score r)) rs)" by blast
  have D: "\<forall>i j. i < length rs \<and> j < length rs \<and> res_score (rs ! j) < res_score (rs ! i) \<longrightarrow> i < j"
    using sorted_desc_rank [OF srt] by blast
  have E1: "\<exists>cont. cs_getFile cs (res_path r) = Inr (Some cont) \<and>
              t \<in> set (tokenize (doc_content (make_doc (res_path r) cont))) \<and>
              res_score r = occurrences_score t (make_doc (res_path r) cont) \<and>
              1 \<le> res_score r"
    if w: "words_of query = [t]" and r: "r \<in> set rs" for t r
  proof -
    let ?p = "res_path r"
    from r have "?p \<in> res_path ` set rs" by simp
    with C w have ne: "matches_of idx ?p t \<noteq> []" by simp
    from A [of ?p t] have "length (matches_of idx ?p t) \<le> 1" by simp
    with ne obtain d where m: "matches_of idx ?p t = [d]"
      by (cases "matches_of idx ?p t") auto
    from A [of ?p t] m obtain cont where
      cont: "cs_getFile cs ?p = Inr (Some cont)" "d = make_doc ?p cont"
      and tok: "t \<in> set (tokenize (doc_content d))"
      and cnt: "1 \<le> count_matches t (toLowerCase (doc_content d))"
      by auto
    from B r w m have sc: "res_score r = occurrences_score t d" by simp
    from cnt have "1 \<le> occurrences_score t d" by (simp add: occurrences_score_def)
    with sc cont tok show ?thesis by auto
  qed
  have E2: "p \<notin> res_path ` set rs"
    if w: "words_of query = [t]" and f: "cs_getFile cs p = Inr (Some cont)"
      and nt: "t \<notin> set (tokenize (doc_content (make_doc p cont)))" for t p cont
  proof
    assume "p \<in> res_path ` set rs"
    then obtain r where r: "r \<in> set rs" "res_path r = p" by auto
    from E1 [OF w r(1)] r(2) f nt show False by auto
  qed
  have E: "\<forall>t. words_of query = [t] \<longrightarrow>
              (\<forall>r \<in> set rs.
                 \<exists>cont. cs_getFile cs (res_path r) = Inr (Some cont) \<and>
                   t \<in> set (tokenize (doc_content (make_doc (res_path r) cont))) \<and>
                   res_score r = occurrences_score t (make_doc (res_path r) cont) \<and>
                   1 \<le> res_score r) \<and>
              (\<forall>p cont. cs_getFile cs p = Inr (Some cont) \<and>
                   t \<notin> set (tokenize (doc_content (make_doc p cont))) \<longrightarrow>
                   p \<notin> res_path ` set rs)"
    using E1 E2 by blast
  have A': "\<forall>p t. length (matches_of idx p t) \<le> 1 \<and>
                  (\<forall>d \<in> set (matches_of idx p t).
                     (\<exists>cont. cs_getFile cs p = Inr (Some cont) \<and> d = make_doc p cont) \<and>
                     t \<in> set (tokenize (doc_content d)) \<and>
                     1 \<le> count_matches t (toLowerCase (doc_content d)))"
    using A by blast
  show ?thesis
    by (rule exI [of _ idx]) (intro conjI idx A' B C dist D E)
qed

theorem search_scoring_witness:
  "paths_end_with_names wiki_cs \<and>
   initSearchIndex 2 (Some wiki_cs) initial_state = Some wiki_state \<and>
   searchInFiles wiki_state ''hello'' = Inr [hello_a, hello_b] \<and>
   words_of ''hello'' = [''hello''] \<and>
   res_score hello_a = 4 \<and> res_score hello_b = 1 \<and>
   cs_getFile wiki_cs (res_path hello_a) = Inr (Some a_text) \<and>
   ''hello'' \<in> set (tokenize (doc_content (make_doc (res_path hello_a) a_text))) \<and>
   res_score hello_a = occurrences_score ''hello'' (make_doc (res_path hello_a) a_text) \<and>
   (\<exists>idx. searchIndex wiki_state = Some idx \<and>
      length (matches_of idx ''a.md'' ''hello'') \<le> 1 \<and>
      res_score hello_a =
        sum_list (map (\<lambda>t. sum_list (map (occurrences_score t) (matches_of idx (res_path hello_a) t)))
                   (words_of ''hello'')) \<and>
      (\<exists>t \<in> set (words_of ''hello''). matches_of idx ''v1.0/b.md'' t \<noteq> []))"
proof -
  have ends: "endsWith (item_path a_item) (item_name a_item)"
    "endsWith (item_path b_item) (item_name b_item)"
    "endsWith (item_path c_item) (item_name c_item)"
    "endsWith (item_path dir_item) (item_name dir_item)"
    by code_simp+
  have api: "paths_end_with_names wiki_cs"
    unfolding paths_end_with_names_def
  proof (intro allI impI)
    fix p items it
    assume a: "cs_getDirectoryContents wiki_cs p = Inr items \<and> it \<in> set items"
    then have "it = a_item \<or> it = b_item \<or> it = c_item \<or> it = dir_item"
      by (auto simp: wiki_cs_def split: if_splits)
    with ends show "endsWith (item_path it) (item_name it)" by (elim disjE) simp_all
  qed
  have "initSearchIndex 2 (Some wiki_cs) initial_state \<noteq> None" by code_simp
  then have built: "initSearchIndex 2 (Some wiki_cs) initial_state = Some wiki_state"
    by (simp add: wiki_state_def)
  have found: "searchInFiles wiki_state ''hello'' = Inr [hello_a, hello_b]" by code_simp
  have w: "words_of ''hello'' = [''hello'']" by code_simp
  have sa: "res_score hello_a = 4" and sb: "res_score hello_b = 1"
    by (simp_all add: hello_a_def hello_b_def)
  have fa: "cs_getFile wiki_cs (res_path hello_a) = Inr (Some a_text)"
    by (simp add: wiki_cs_def hello_a_def)
  have pb: "''v1.0/b.md'' \<in> res_path ` set [hello_a, hello_b]"
    by (simp add: hello_b_def)
  have ina: "hello_a \<in> set [hello_a, hello_b]" by simp
  from search_scoring [OF api built found] obtain idx where
    h: "searchIndex wiki_state = Some idx \<and>
        (\<forall>p t. length (matches_of idx p t) \<le> 1 \<and>
               (\<forall>d \<in> set (matches_of idx p t).
                  (\<exists>cont. cs_getFile wiki_cs p = Inr (Some cont) \<and> d = make_doc p cont) \<and>
                  t \<in> set (tokenize (doc_content d)) \<and>
                  1 \<le> count_matches t (toLowerCase (doc_content d)))) \<and>
        (\<forall>r \<in> set [hello_a, hello_b].
           res_score r =
             sum_list (map (\<lambda>t. sum_list (map (occurrences_score t) (matches_of idx (res_path r) t)))
                        (words_of ''hello''))) \<and>
        (\<forall>p. p \<in> res_path ` set [hello_a, hello_b] \<longleftrightarrow>
             (\<exists>t \<in> set (words_of ''hello''). matches_of idx p t \<noteq> [])) \<and>
        distinct (map res_path [hello_a, hello_b]) \<and>
        (\<forall>i j. i < length [hello_a, hello_b] \<and> j < length [hello_a, hello_b] \<and>
               res_score ([hello_a, hello_b] ! j) < res_score ([hello_a, hello_b] ! i) \<longrightarrow> i < j) \<and>
        (\<forall>t. words_of ''hello'' = [t] \<longrightarrow>
           (\<forall>r \<in> set [hello_a, hello_b].
              \<exists>cont. cs_getFile wiki_cs (res_path r) = Inr (Some cont) \<and>
                t \<in> set (tokenize (doc_content (make_doc (res_path r) cont))) \<and>
                res_score r = occurrences_score t (make_doc (res_path r) cont) \<and>
                1 \<le> res_score r) \<and>
           (\<forall>p cont. cs_getFile wiki_cs p = Inr (Some cont) \<and>
                t \<notin> set (tokenize (doc_content (make_doc p cont))) \<longrightarrow>
                p \<notin> res_path ` set [hello_a, hello_b]))" ..
  note idx = h [THEN conjunct1]
  note A = h [THEN conjunct2, THEN conjunct1]
  note B = h [THEN conjunct2, THEN conjunct2, THEN conjunct1]
  note C = h [THEN conjunct2, THEN conjunct2, THEN conjunct2, THEN conjunct1]
  note E = h [THEN conjunct2, THEN conjunct2, THEN conjunct2, THEN conjunct2, THEN conjunct2,
      THEN conjunct2, THEN spec, THEN mp, OF w, THEN conjunct1, THEN bspec, OF ina]
  from E obtain cont where
    c: "cs_getFile wiki_cs (res_path hello_a) = Inr (Some cont)"
    and e: "''hello'' \<in> set (tokenize (doc_content (make_doc (res_path hello_a) cont)))"
      "res_score hello_a = occurrences_score ''hello'' (make_doc (res_path hello_a) cont)"
    by (elim exE conjE)
  from c have "(Inr (Some a_text) :: error + string option) = Inr (Some cont)"
    unfolding fa .
  then have ca: "cont = a_text" by (simp only: sum.inject option.inject)
  note ta = e(1) [unfolded ca] and oa = e(2) [unfolded ca]
  have one: "length (matches_of idx ''a.md'' ''hello'') \<le> 1"
    by (rule A [THEN spec, THEN spec, THEN conjunct1])
  from B have s: "res_score hello_a =
      sum_list (map (\<lambda>t. sum_list (map (occurrences_score t) (matches_of idx (res_path hello_a) t)))
                 (words_of ''hello''))"
    by (rule bspec) simp
  from C [THEN spec, THEN iffD1, OF pb]
  have r: "\<exists>t \<in> set (words_of ''hello''). matches_of idx ''v1.0/b.md'' t \<noteq> []" .
  have ex: "\<exists>idx. searchIndex wiki_state = Some idx \<and>
      length (matches_of idx ''a.md'' ''hello'') \<le> 1 \<and>
      res_score hello_a =
        sum_list (map (\<lambda>t. sum_list (map (occurrences_score t) (matches_of idx (res_path hello_a) t)))
                   (words_of ''hello'')) \<and>
      (\<exists>t \<in> set (words_of ''hello''). matches_of idx ''v1.0/b.md'' t \<noteq> [])"
    by (rule exI [of _ idx]) (intro conjI idx one s r)
  show ?thesis
    by (intro conjI) (rule api built found w sa sb fa ta oa ex)+
qed

end
